theory Spec2Isabelle
  imports Complex_Main "HOL-Library.Multiset" "HOL-Library.Signed_Division"
begin

section \<open>The board (game/sudoku.go)\<close>

text \<open>
  The Go struct holds one field, a fixed array \<^verbatim>\<open>Board [9][9]int\<close>. The array is
  modelled as a total function from the two indices to the cell; every read and write
  of the source happens at indices 0..8 (each is guarded by \<^verbatim>\<open>isValidPosition\<close> or
  by a loop bound), and the cells outside that square are never touched. Go's \<^verbatim>\<open>int\<close>
  is modelled as \<open>int\<close>: the only arithmetic on it is on indices and digits.
\<close>

record Sudoku =
  Board :: "int \<Rightarrow> int \<Rightarrow> int"

text \<open>The assignment \<^verbatim>\<open>s.Board[row][col] = value\<close>.\<close>

definition assign :: "Sudoku \<Rightarrow> int \<Rightarrow> int \<Rightarrow> int \<Rightarrow> Sudoku" where
  "assign s row col v = s\<lparr>Board := (Board s)(row := (Board s row)(col := v))\<rparr>"

text \<open>A \<^verbatim>\<open>[9][9]int\<close> array literal, written as its rows.\<close>

definition array9 :: "int list list \<Rightarrow> int \<Rightarrow> int \<Rightarrow> int" where
  "array9 rows = (\<lambda>i j. rows ! nat i ! nat j)"

definition NewSudoku :: Sudoku where
  "NewSudoku = \<lparr>Board = (\<lambda>i j. 0)\<rparr>"

definition NewSudokuWithPuzzle :: "int list list \<Rightarrow> Sudoku" where
  "NewSudokuWithPuzzle puzzle = \<lparr>Board = array9 puzzle\<rparr>"

definition isValidPosition :: "int \<Rightarrow> int \<Rightarrow> bool" where
  "isValidPosition row col \<longleftrightarrow> row \<ge> 0 \<and> row < 9 \<and> col \<ge> 0 \<and> col < 9"

definition isValidValue :: "int \<Rightarrow> bool" where
  "isValidValue v \<longleftrightarrow> v \<ge> 0 \<and> v \<le> 9"

text \<open>
  The methods that mutate the receiver return the new board next to their result.
\<close>

definition SetCell :: "Sudoku \<Rightarrow> int \<Rightarrow> int \<Rightarrow> int \<Rightarrow> bool \<times> Sudoku" where
  "SetCell s row col v =
     (if \<not> isValidPosition row col \<or> \<not> isValidValue v then (False, s)
      else (True, assign s row col v))"

definition GetCell :: "Sudoku \<Rightarrow> int \<Rightarrow> int \<Rightarrow> int" where
  "GetCell s row col = (if \<not> isValidPosition row col then - 1 else Board s row col)"

definition ClearCell :: "Sudoku \<Rightarrow> int \<Rightarrow> int \<Rightarrow> bool \<times> Sudoku" where
  "ClearCell s row col =
     (if \<not> isValidPosition row col then (False, s) else (True, assign s row col 0))"

definition IsEmpty :: "Sudoku \<Rightarrow> int \<Rightarrow> int \<Rightarrow> bool" where
  "IsEmpty s row col \<longleftrightarrow> GetCell s row col = 0"

text \<open>
  \<^verbatim>\<open>isValidPlacement\<close>: three loops with an early \<^verbatim>\<open>return false\<close>. Go's \<^verbatim>\<open>/\<close> on
  integers truncates towards zero, which is \<open>sdiv\<close>.
\<close>

definition isValidPlacement :: "Sudoku \<Rightarrow> int \<Rightarrow> int \<Rightarrow> int \<Rightarrow> bool" where
  "isValidPlacement s row col v =
     (if v = 0 then True
      else if list_ex (\<lambda>j. j \<noteq> col \<and> Board s row j = v) [0..8] then False
      else if list_ex (\<lambda>i. i \<noteq> row \<and> Board s i col = v) [0..8] then False
      else
        (let boxRow = (row sdiv 3) * 3; boxCol = (col sdiv 3) * 3
         in if list_ex (\<lambda>i. list_ex (\<lambda>j. (i \<noteq> row \<or> j \<noteq> col) \<and> Board s i j = v)
                                     [boxCol..boxCol + 2])
                       [boxRow..boxRow + 2]
            then False else True))"

definition IsValidMove :: "Sudoku \<Rightarrow> int \<Rightarrow> int \<Rightarrow> int \<Rightarrow> bool \<times> Sudoku" where
  "IsValidMove s row col v =
     (if \<not> isValidPosition row col \<or> \<not> isValidValue v then (False, s)
      else
        (let original = Board s row col;
             s1 = assign s row col v;
             valid = isValidPlacement s1 row col v;
             s2 = assign s1 row col original
         in (valid, s2)))"

definition IsValid :: "Sudoku \<Rightarrow> bool" where
  "IsValid s =
     (if list_ex (\<lambda>i. list_ex (\<lambda>j. Board s i j \<noteq> 0 \<and>
                                      \<not> isValidPlacement s i j (Board s i j)) [0..8]) [0..8]
      then False else True)"

definition IsComplete :: "Sudoku \<Rightarrow> bool" where
  "IsComplete s =
     (if list_ex (\<lambda>i. list_ex (\<lambda>j. Board s i j = 0) [0..8]) [0..8] then False
      else IsValid s)"

definition GetSamplePuzzle :: "int list list" where
  "GetSamplePuzzle =
    [[5, 3, 0, 0, 7, 0, 0, 0, 0],
     [6, 0, 0, 1, 9, 5, 0, 0, 0],
     [0, 9, 8, 0, 0, 0, 0, 6, 0],
     [8, 0, 0, 0, 6, 0, 0, 0, 3],
     [4, 0, 0, 8, 0, 3, 0, 0, 1],
     [7, 0, 0, 0, 2, 0, 0, 0, 6],
     [0, 6, 0, 0, 0, 0, 2, 8, 0],
     [0, 0, 0, 4, 1, 9, 0, 0, 5],
     [0, 0, 0, 0, 8, 0, 0, 7, 9]]"

definition GetSampleSolution :: "int list list" where
  "GetSampleSolution =
    [[5, 3, 4, 6, 7, 8, 9, 1, 2],
     [6, 7, 2, 1, 9, 5, 3, 4, 8],
     [1, 9, 8, 3, 4, 2, 5, 6, 7],
     [8, 5, 9, 7, 6, 1, 4, 2, 3],
     [4, 2, 6, 8, 5, 3, 7, 9, 1],
     [7, 1, 3, 9, 2, 4, 8, 5, 6],
     [9, 6, 1, 5, 3, 7, 2, 8, 4],
     [2, 8, 7, 4, 1, 9, 6, 3, 5],
     [3, 4, 5, 2, 8, 6, 1, 7, 9]]"

section \<open>The generator\<close>

text \<open>
  The generator's only state is its \<^verbatim>\<open>*rand.Rand\<close>, a value of Go's standard
  library. It is modelled by the sequence of raw numbers it will deliver: \<open>Intn n\<close>
  takes the next one, reduced below \<open>n\<close>, and moves on. Every sequence of answers a
  real source can give is the behaviour of one such sequence. The source calls
  \<^verbatim>\<open>Intn\<close> with positive bounds only (2..81, 10 and 11), where Go's does not panic.
\<close>

type_synonym Rand = "nat \<Rightarrow> nat"

definition Intn :: "Rand \<Rightarrow> nat \<Rightarrow> nat \<times> Rand" where
  "Intn r n = (r 0 mod n, (\<lambda>k. r (Suc k)))"

record Generator =
  rand :: Rand

text \<open>\<^verbatim>\<open>type Difficulty int\<close> with the four constants numbered by \<^verbatim>\<open>iota\<close>.\<close>

type_synonym Difficulty = int

definition Easy :: Difficulty where "Easy = 0"
definition Medium :: Difficulty where "Medium = 1"
definition Hard :: Difficulty where "Hard = 2"
definition Expert :: Difficulty where "Expert = 3"


text \<open>The call \<^verbatim>\<open>g.rand.Intn(n)\<close>: the answer and the generator with its source advanced.\<close>

definition randIntn :: "Generator \<Rightarrow> nat \<Rightarrow> nat \<times> Generator" where
  "randIntn g n = (let (v, r) = Intn (rand g) n in (v, g\<lparr>rand := r\<rparr>))"

text \<open>
  The Fisher-Yates loop \<^verbatim>\<open>for i := len(xs) - 1; i > 0; i-- { j := g.rand.Intn(i + 1);
  xs[i], xs[j] = xs[j], xs[i] }\<close>, which the source writes out twice, in
  \<^verbatim>\<open>getRandomNumbers\<close> and in \<^verbatim>\<open>shufflePositions\<close>. The first argument is \<open>i\<close>.
\<close>

fun shuffleLoop :: "nat \<Rightarrow> 'a list \<Rightarrow> Generator \<Rightarrow> 'a list \<times> Generator" where
  "shuffleLoop 0 xs g = (xs, g)"
| "shuffleLoop (Suc k) xs g =
     (let i = Suc k;
          (j, g1) = randIntn g (i + 1)
      in shuffleLoop k (xs[i := xs ! j, j := xs ! i]) g1)"

definition getRandomNumbers :: "Generator \<Rightarrow> int list \<times> Generator" where
  "getRandomNumbers g =
     (let numbers = [1, 2, 3, 4, 5, 6, 7, 8, 9]
      in shuffleLoop (length numbers - 1) numbers g)"

definition shufflePositions :: "(int \<times> int) list \<Rightarrow> Generator \<Rightarrow> (int \<times> int) list \<times> Generator" where
  "shufflePositions positions g = shuffleLoop (length positions - 1) positions g"

text \<open>
  The nested loops \<^verbatim>\<open>for i := 0; i < 9; i++ { for j := 0; j < 9; j++ { ... } }\<close> visit the
  cells in row-major order.
\<close>

definition cells :: "(int \<times> int) list" where
  "cells = List.product [0..8] [0..8]"

definition findEmptyCell :: "Sudoku \<Rightarrow> int \<times> int" where
  "findEmptyCell s =
     (case List.find (\<lambda>(i, j). IsEmpty s i j) cells of
        Some (i, j) \<Rightarrow> (i, j)
      | None \<Rightarrow> (- 1, - 1))"

text \<open>
  \<^verbatim>\<open>fillBoard\<close> calls itself from inside its loop over the candidate numbers;
  \<open>tryNumbers\<close> is that loop. The first argument bounds the depth of the recursion:
  a call that would go deeper gives \<open>None\<close>. The board and the generator are threaded
  through every call, as the source mutates both in place.
\<close>

fun fillBoard :: "nat \<Rightarrow> Generator \<Rightarrow> Sudoku \<Rightarrow> (bool \<times> Generator \<times> Sudoku) option"
  and tryNumbers :: "nat \<Rightarrow> int \<Rightarrow> int \<Rightarrow> int list \<Rightarrow> Generator \<Rightarrow> Sudoku
                       \<Rightarrow> (bool \<times> Generator \<times> Sudoku) option"
where
  "fillBoard 0 g s = None"
| "fillBoard (Suc d) g s =
     (let (row, col) = findEmptyCell s
      in if row = - 1 then Some (True, g, s)
         else (let (numbers, g1) = getRandomNumbers g
               in tryNumbers d row col numbers g1 s))"
| "tryNumbers d row col [] g s = Some (False, g, s)"
| "tryNumbers d row col (num # nums) g s =
     (let (valid, s0) = IsValidMove s row col num
      in if valid then
           (let s1 = snd (SetCell s0 row col num)
            in case fillBoard d g s1 of
                 None \<Rightarrow> None
               | Some (ok, g2, s2) \<Rightarrow>
                   if ok then Some (True, g2, s2)
                   else tryNumbers d row col nums g2 (snd (ClearCell s2 row col)))
         else tryNumbers d row col nums g s0)"

text \<open>
  \<^verbatim>\<open>GenerateComplete\<close> starts the search on a new board and returns the board,
  whatever \<^verbatim>\<open>fillBoard\<close> answered. Depth 82 is one call for each of the 81 cells
  and the last call that finds no empty cell.
\<close>

definition GenerateComplete :: "Generator \<Rightarrow> (Sudoku \<times> Generator) option" where
  "GenerateComplete g =
     (case fillBoard 82 g NewSudoku of
        None \<Rightarrow> None
      | Some (ok, g1, sudoku) \<Rightarrow> Some (sudoku, g1))"

text \<open>
  The loop of \<^verbatim>\<open>removeCells\<close> over the shuffled positions. The source's parameter
  \<^verbatim>\<open>complete\<close> is written \<open>completed\<close>, the name being taken in HOL.
\<close>

fun removeLoop :: "(int \<times> int) list \<Rightarrow> int \<Rightarrow> int \<Rightarrow> Sudoku \<Rightarrow> Sudoku" where
  "removeLoop [] removed cellsToRemove puzzle = puzzle"
| "removeLoop (pos # rest) removed cellsToRemove puzzle =
     (if removed \<ge> cellsToRemove then puzzle
      else (let (row, col) = pos
            in if \<not> IsEmpty puzzle row col
               then removeLoop rest (removed + 1) cellsToRemove (snd (ClearCell puzzle row col))
               else removeLoop rest removed cellsToRemove puzzle))"

definition removeCells :: "Generator \<Rightarrow> Sudoku \<Rightarrow> int \<Rightarrow> Sudoku \<times> Generator" where
  "removeCells g completed cellsToRemove =
     (let puzzle = fold (\<lambda>(i, j) p. assign p i j (Board completed i j)) cells NewSudoku;
          positions = cells;
          (positions, g1) = shufflePositions positions g
      in (removeLoop positions 0 cellsToRemove puzzle, g1))"

definition createPuzzle :: "Generator \<Rightarrow> Sudoku \<Rightarrow> Difficulty \<Rightarrow> Sudoku \<times> Generator" where
  "createPuzzle g completed difficulty =
     (let (cellsToRemove, g1) =
            (if difficulty = Easy then (let (v, g1) = randIntn g 11 in (35 + int v, g1))
             else if difficulty = Medium then (let (v, g1) = randIntn g 10 in (46 + int v, g1))
             else if difficulty = Hard then (let (v, g1) = randIntn g 10 in (50 + int v, g1))
             else if difficulty = Expert then (let (v, g1) = randIntn g 10 in (54 + int v, g1))
             else (40, g))
      in removeCells g1 completed cellsToRemove)"

definition GeneratePuzzle :: "Generator \<Rightarrow> Difficulty \<Rightarrow> (Sudoku \<times> Generator) option" where
  "GeneratePuzzle g difficulty =
     (case GenerateComplete g of
        None \<Rightarrow> None
      | Some (completed, g1) \<Rightarrow> Some (createPuzzle g1 completed difficulty))"

text \<open>
  The conversion \<^verbatim>\<open>int(x)\<close> of a \<^verbatim>\<open>float64\<close> drops the fraction. The product
  \<^verbatim>\<open>float64(totalCells) * emptyRatio\<close> is the one rounding operation of the function:
  the multiplication is a parameter, so that nothing is assumed about how it rounds.
\<close>

definition truncate :: "real \<Rightarrow> int" where
  "truncate x = (if x \<ge> 0 then \<lfloor>x\<rfloor> else \<lceil>x\<rceil>)"

definition GeneratePuzzleWithEmptyRatio ::
  "(real \<Rightarrow> real \<Rightarrow> real) \<Rightarrow> Generator \<Rightarrow> real \<Rightarrow> (Sudoku \<times> Generator) option" where
  "GeneratePuzzleWithEmptyRatio fmul g emptyRatio =
     (let emptyRatio = (if emptyRatio < 0 then 0 else emptyRatio);
          emptyRatio = (if emptyRatio > 1 then 1 else emptyRatio)
      in case GenerateComplete g of
           None \<Rightarrow> None
         | Some (completed, g1) \<Rightarrow>
             (let totalCells = (81::int);
                  cellsToRemove = truncate (fmul (of_int totalCells) emptyRatio)
              in Some (removeCells g1 completed cellsToRemove)))"

definition CountEmptyCells :: "Sudoku \<Rightarrow> int" where
  "CountEmptyCells sudoku =
     fold (\<lambda>(i, j) count. if IsEmpty sudoku i j then count + 1 else count) cells 0"









section \<open>Notions used in the statements\<close>

text \<open>
  Two distinct cells of the grid see each other when they share a row, a column or a
  3x3 box; the box of a cell is given by the quotients of its coordinates by 3.
\<close>

definition peer :: "int \<Rightarrow> int \<Rightarrow> int \<Rightarrow> int \<Rightarrow> bool" where
  "peer row col i j \<longleftrightarrow>
     0 \<le> i \<and> i \<le> 8 \<and> 0 \<le> j \<and> j \<le> 8 \<and> (i \<noteq> row \<or> j \<noteq> col) \<and>
     (i = row \<or> j = col \<or> (i div 3 = row div 3 \<and> j div 3 = col div 3))"

text \<open>The empty cells of the grid.\<close>

definition emptySet :: "Sudoku \<Rightarrow> (int \<times> int) set" where
  "emptySet s = {p \<in> set cells. Board s (fst p) (snd p) = 0}"

text \<open>Every cell of the grid holds 0 or a digit.\<close>

definition inRange :: "Sudoku \<Rightarrow> bool" where
  "inRange s \<longleftrightarrow> list_all (\<lambda>(i, j). 0 \<le> Board s i j \<and> Board s i j \<le> 9) cells"

text \<open>A solved grid: complete, with digits only.\<close>

definition isSolution :: "Sudoku \<Rightarrow> bool" where
  "isSolution t \<longleftrightarrow> IsComplete t \<and> inRange t"

text \<open>\<open>t\<close> agrees with \<open>s\<close> on every cell that \<open>s\<close> has filled.\<close>

definition extends :: "Sudoku \<Rightarrow> Sudoku \<Rightarrow> bool" where
  "extends s t \<longleftrightarrow> (\<forall>i j. isValidPosition i j \<and> Board s i j \<noteq> 0 \<longrightarrow> Board t i j = Board s i j)"

text \<open>No cell of the grid is empty.\<close>

definition isFilled :: "Sudoku \<Rightarrow> bool" where
  "isFilled s \<longleftrightarrow> list_all (\<lambda>(i, j). Board s i j \<noteq> 0) cells"

text \<open>The values of a row, of a column and of the box in band \<open>bi\<close>, stack \<open>bj\<close>.\<close>

definition rowValues :: "Sudoku \<Rightarrow> int \<Rightarrow> int list" where
  "rowValues s i = map (\<lambda>j. Board s i j) [0..8]"

definition colValues :: "Sudoku \<Rightarrow> int \<Rightarrow> int list" where
  "colValues s j = map (\<lambda>i. Board s i j) [0..8]"

definition boxValues :: "Sudoku \<Rightarrow> int \<Rightarrow> int \<Rightarrow> int list" where
  "boxValues s bi bj =
     map (\<lambda>(i, j). Board s i j) (List.product [3 * bi..3 * bi + 2] [3 * bj..3 * bj + 2])"

section \<open>Properties of the board\<close>

lemma Board_assign:
  "Board (assign s r c v) i j = (if i = r \<and> j = c then v else Board s i j)"
  by (simp add: assign_def)

lemma assign_restore: "assign (assign s r c v) r c (Board s r c) = s"
  by (simp add: assign_def)

lemma assign_same: "Board s r c = v \<Longrightarrow> assign s r c v = s"
  by (auto simp: assign_def)

lemma sdiv3: "0 \<le> r \<Longrightarrow> r sdiv 3 = r div (3::int)"
  by (simp add: signed_divide_int_def sgn_if)

lemma isValidPlacement_loops:
  assumes "isValidPosition row col" "v \<noteq> 0"
  shows "isValidPlacement s row col v \<longleftrightarrow>
     \<not> (\<exists>j. 0 \<le> j \<and> j \<le> 8 \<and> j \<noteq> col \<and> Board s row j = v) \<and>
     \<not> (\<exists>i. 0 \<le> i \<and> i \<le> 8 \<and> i \<noteq> row \<and> Board s i col = v) \<and>
     \<not> (\<exists>i j. i div 3 = row div 3 \<and> j div 3 = col div 3 \<and>
               (i \<noteq> row \<or> j \<noteq> col) \<and> Board s i j = v)"
proof -
  from assms have r: "0 \<le> row" "0 \<le> col"
    by (auto simp: isValidPosition_def)
  have bx:
    "\<And>i. ((row div 3) * 3 \<le> i \<and> i \<le> (row div 3) * 3 + 2) \<longleftrightarrow> (i div 3 = row div 3)"
    "\<And>j. ((col div 3) * 3 \<le> j \<and> j \<le> (col div 3) * 3 + 2) \<longleftrightarrow> (j div 3 = col div 3)"
    by presburger+
  show ?thesis
    unfolding isValidPlacement_def Let_def list_ex_iff set_upto atLeastAtMost_iff
      sdiv3[OF r(1)] sdiv3[OF r(2)] bx Bex_def mem_Collect_eq
    using assms(2) by (simp (no_asm_simp)) blast
qed

lemma isValidPlacement_peer:
  assumes "isValidPosition row col" "v \<noteq> 0"
  shows "isValidPlacement s row col v \<longleftrightarrow> (\<forall>i j. peer row col i j \<longrightarrow> Board s i j \<noteq> v)"
proof -
  from assms have r: "0 \<le> row" "row \<le> 8" "0 \<le> col" "col \<le> 8"
    by (auto simp: isValidPosition_def)
  have rg: "\<And>i. i div 3 = row div 3 \<Longrightarrow> 0 \<le> i \<and> i \<le> 8"
    "\<And>j. j div 3 = col div 3 \<Longrightarrow> 0 \<le> j \<and> j \<le> 8"
    using r by presburger+
  show ?thesis
    unfolding isValidPlacement_loops[OF assms] peer_def
    using r rg by blast
qed

lemma IsValidMove_frame: "snd (IsValidMove s row col v) = s"
  by (simp add: IsValidMove_def Let_def assign_restore)

lemma IsValidMove_peer:
  assumes "isValidPosition row col" "1 \<le> v" "v \<le> 9"
  shows "fst (IsValidMove s row col v) \<longleftrightarrow> (\<forall>i j. peer row col i j \<longrightarrow> Board s i j \<noteq> v)"
proof -
  have "fst (IsValidMove s row col v) = isValidPlacement (assign s row col v) row col v"
    using assms by (simp add: IsValidMove_def Let_def isValidValue_def)
  also have "\<dots> \<longleftrightarrow> (\<forall>i j. peer row col i j \<longrightarrow> Board (assign s row col v) i j \<noteq> v)"
    using assms by (intro isValidPlacement_peer) auto
  also have "\<dots> \<longleftrightarrow> (\<forall>i j. peer row col i j \<longrightarrow> Board s i j \<noteq> v)"
    by (auto simp: Board_assign peer_def)
  finally show ?thesis .
qed

lemma sample_move_4: "fst (IsValidMove (NewSudokuWithPuzzle GetSamplePuzzle) 0 2 4)"
  by code_simp

lemma sample_move_5: "\<not> fst (IsValidMove (NewSudokuWithPuzzle GetSamplePuzzle) 0 2 5)"
  by code_simp

lemma sample_solution_complete: "IsComplete (NewSudokuWithPuzzle GetSampleSolution)"
  by code_simp

lemma IsComplete_iff:
  "IsComplete s \<longleftrightarrow>
     (\<forall>i j. 0 \<le> i \<and> i \<le> 8 \<and> 0 \<le> j \<and> j \<le> 8 \<longrightarrow> Board s i j \<noteq> 0) \<and> IsValid s"
  unfolding IsComplete_def list_ex_iff set_upto by auto

text \<open>
  Claim C2. For row and col in 0..8 and a value in 1..9, \<open>IsValidMove\<close> answers false
  exactly when the value stands in another cell of the same row, of the same column or
  of the same 3x3 box. On the sample puzzle, 4 may go to cell (0,2) and 5 may not.
\<close>

theorem IsValidMove_false_iff_value_elsewhere:
  "(0 \<le> row \<and> row \<le> 8 \<and> 0 \<le> col \<and> col \<le> 8 \<and> 1 \<le> v \<and> v \<le> 9 \<longrightarrow>
      (fst (IsValidMove s row col v) = False) =
      (\<exists>i j. 0 \<le> i \<and> i \<le> 8 \<and> 0 \<le> j \<and> j \<le> 8 \<and> (i \<noteq> row \<or> j \<noteq> col) \<and>
             (i = row \<or> j = col \<or> (i div 3 = row div 3 \<and> j div 3 = col div 3)) \<and>
             Board s i j = v)) \<and>
   fst (IsValidMove (NewSudokuWithPuzzle GetSamplePuzzle) 0 2 4) = True \<and>
   fst (IsValidMove (NewSudokuWithPuzzle GetSamplePuzzle) 0 2 5) = False"
proof (intro conjI impI)
  assume a: "0 \<le> row \<and> row \<le> 8 \<and> 0 \<le> col \<and> col \<le> 8 \<and> 1 \<le> v \<and> v \<le> 9"
  then have "isValidPosition row col" by (simp add: isValidPosition_def)
  with a show "(fst (IsValidMove s row col v) = False) =
      (\<exists>i j. 0 \<le> i \<and> i \<le> 8 \<and> 0 \<le> j \<and> j \<le> 8 \<and> (i \<noteq> row \<or> j \<noteq> col) \<and>
             (i = row \<or> j = col \<or> (i div 3 = row div 3 \<and> j div 3 = col div 3)) \<and>
             Board s i j = v)"
    by (simp add: IsValidMove_peer peer_def)
next
  show "fst (IsValidMove (NewSudokuWithPuzzle GetSamplePuzzle) 0 2 4) = True"
    using sample_move_4 by simp
next
  show "fst (IsValidMove (NewSudokuWithPuzzle GetSamplePuzzle) 0 2 5) = False"
    using sample_move_5 by simp
qed

theorem IsValidMove_false_iff_value_elsewhere_witness:
  "(0::int) \<le> 0 \<and> (0::int) \<le> 8 \<and> (0::int) \<le> 2 \<and> (2::int) \<le> 8 \<and> (1::int) \<le> 5 \<and> (5::int) \<le> 9 \<and>
   (\<exists>i j. 0 \<le> i \<and> i \<le> 8 \<and> 0 \<le> j \<and> j \<le> 8 \<and> (i \<noteq> 0 \<or> j \<noteq> 2) \<and>
          (i = 0 \<or> j = 2 \<or> (i div 3 = 0 div 3 \<and> j div 3 = 2 div 3)) \<and>
          Board (NewSudokuWithPuzzle GetSamplePuzzle) i j = 5)"
proof -
  have h: "(0::int) \<le> 0 \<and> (0::int) \<le> 8 \<and> (0::int) \<le> 2 \<and> (2::int) \<le> 8 \<and> (1::int) \<le> 5 \<and> (5::int) \<le> 9"
    by simp
  from IsValidMove_false_iff_value_elsewhere
          [of 0 2 5 "NewSudokuWithPuzzle GetSamplePuzzle"] h
  show ?thesis by blast
qed

text \<open>
  Claim C3. Whatever the arguments and whatever the answer, the board that
  \<open>IsValidMove\<close> leaves behind is the board it was given.
\<close>

theorem IsValidMove_leaves_board_unchanged:
  "snd (IsValidMove s row col v) = s \<and>
   Board (snd (IsValidMove s row col v)) i j = Board s i j"
  by (simp add: IsValidMove_frame)

theorem IsValidMove_leaves_board_unchanged_witness:
  "snd (IsValidMove (NewSudokuWithPuzzle GetSamplePuzzle) 0 2 5) =
     NewSudokuWithPuzzle GetSamplePuzzle \<and>
   snd (IsValidMove (NewSudokuWithPuzzle GetSamplePuzzle) 0 2 4) =
     NewSudokuWithPuzzle GetSamplePuzzle \<and>
   snd (IsValidMove NewSudoku 9 0 1) = NewSudoku"
  using IsValidMove_leaves_board_unchanged [of "NewSudokuWithPuzzle GetSamplePuzzle" 0 2 5 0 0]
    IsValidMove_leaves_board_unchanged [of "NewSudokuWithPuzzle GetSamplePuzzle" 0 2 4 0 0]
    IsValidMove_leaves_board_unchanged [of NewSudoku 9 0 1 0 0]
  by simp

text \<open>
  Claim C8. \<open>IsComplete\<close> holds exactly when no cell of the grid is 0 and \<open>IsValid\<close>
  holds; the board built from the sample solution is complete.
\<close>

theorem IsComplete_iff_filled_and_valid:
  "(IsComplete s \<longleftrightarrow>
      (\<forall>i j. 0 \<le> i \<and> i \<le> 8 \<and> 0 \<le> j \<and> j \<le> 8 \<longrightarrow> Board s i j \<noteq> 0) \<and> IsValid s) \<and>
   IsComplete (NewSudokuWithPuzzle GetSampleSolution) = True"
  using IsComplete_iff [of s] sample_solution_complete by simp

theorem IsComplete_iff_filled_and_valid_witness:
  "Board (NewSudokuWithPuzzle GetSampleSolution) 4 4 \<noteq> 0 \<and>
   IsValid (NewSudokuWithPuzzle GetSampleSolution)"
proof -
  have "(0::int) \<le> 4 \<and> (4::int) \<le> 8 \<and> (0::int) \<le> 4 \<and> (4::int) \<le> 8" by simp
  with IsComplete_iff_filled_and_valid [of "NewSudokuWithPuzzle GetSampleSolution"]
  show ?thesis by blast
qed

text \<open>
  Claim C9. With row and col in 0..8 and a value in 0..9, \<open>SetCell\<close> succeeds and
  \<open>GetCell\<close> then reads the value back. With row or col outside 0..8, or the value
  outside 0..9, \<open>SetCell\<close> fails and the board is the one it was given; with row or
  col outside 0..8, \<open>GetCell\<close> answers -1.
\<close>

theorem SetCell_GetCell_bounds:
  "(0 \<le> r \<and> r \<le> 8 \<and> 0 \<le> c \<and> c \<le> 8 \<and> 0 \<le> v \<and> v \<le> 9 \<longrightarrow>
      fst (SetCell s r c v) = True \<and> GetCell (snd (SetCell s r c v)) r c = v) \<and>
   (\<not> (0 \<le> r \<and> r \<le> 8 \<and> 0 \<le> c \<and> c \<le> 8) \<or> \<not> (0 \<le> v \<and> v \<le> 9) \<longrightarrow>
      SetCell s r c v = (False, s)) \<and>
   (\<not> (0 \<le> r \<and> r \<le> 8 \<and> 0 \<le> c \<and> c \<le> 8) \<longrightarrow> GetCell s r c = - 1)"
  by (auto simp: SetCell_def GetCell_def isValidPosition_def isValidValue_def Board_assign)

theorem SetCell_GetCell_bounds_witness:
  "GetCell (snd (SetCell NewSudoku 2 3 7)) 2 3 = 7 \<and>
   SetCell NewSudoku 9 0 1 = (False, NewSudoku) \<and>
   SetCell NewSudoku 0 0 10 = (False, NewSudoku) \<and>
   GetCell NewSudoku 0 (- 1) = - 1"
  using SetCell_GetCell_bounds [of 2 3 7 NewSudoku]
    SetCell_GetCell_bounds [of 9 0 1 NewSudoku]
    SetCell_GetCell_bounds [of 0 0 10 NewSudoku]
    SetCell_GetCell_bounds [of 0 "- 1" 0 NewSudoku]
  by simp

section \<open>Shuffling, scanning and counting\<close>

lemma randIntn_less: "0 < n \<Longrightarrow> fst (randIntn g n) < n"
  by (simp add: randIntn_def Intn_def)

lemma shuffleLoop_mset:
  "k \<le> length xs - 1 \<Longrightarrow> mset (fst (shuffleLoop k xs g)) = mset xs"
proof (induction k arbitrary: xs g)
  case 0
  then show ?case by simp
next
  case (Suc k)
  obtain j g1 where r: "randIntn g (Suc k + 1) = (j, g1)" by (cases "randIntn g (Suc k + 1)")
  have "j < Suc k + 1" using randIntn_less[of "Suc k + 1" g] r by simp
  with Suc.prems have j: "j < length xs" and i: "Suc k < length xs" by auto
  let ?ys = "xs[Suc k := xs ! j, j := xs ! Suc k]"
  have "mset ?ys = mset xs" using i j by (simp add: mset_swap)
  moreover have "k \<le> length ?ys - 1" using i by simp
  ultimately show ?case using Suc.IH[of ?ys g1] r by (simp add: Let_def)
qed

lemma getRandomNumbers_mset:
  "mset (fst (getRandomNumbers g)) = mset [1, 2, 3, 4, 5, 6, 7, 8, 9]"
  unfolding getRandomNumbers_def Let_def by (rule shuffleLoop_mset) simp

lemma getRandomNumbers_set:
  "set (fst (getRandomNumbers g)) = {1, 2, 3, 4, 5, 6, 7, 8, 9}"
  using arg_cong[OF getRandomNumbers_mset, of set_mset g] by simp

lemma shufflePositions_mset: "mset (fst (shufflePositions ps g)) = mset ps"
  unfolding shufflePositions_def by (rule shuffleLoop_mset) simp

lemma set_cells: "set cells = {0..8} \<times> {0..8}"
  by (simp add: cells_def)

lemma distinct_cells: "distinct cells"
  by (simp add: cells_def distinct_product)

lemma length_cells: "length cells = 81"
  by (simp add: cells_def)

lemma in_cells: "(i, j) \<in> set cells \<longleftrightarrow> isValidPosition i j"
  by (auto simp: set_cells isValidPosition_def)

lemma IsEmpty_cell: "isValidPosition i j \<Longrightarrow> IsEmpty s i j \<longleftrightarrow> Board s i j = 0"
  by (simp add: IsEmpty_def GetCell_def)

lemma find_Some_mem: "List.find P xs = Some x \<Longrightarrow> x \<in> set xs \<and> P x"
  by (induction xs) (auto split: if_splits)

lemma findEmptyCell_found:
  assumes "findEmptyCell s = (r, c)" "r \<noteq> - 1"
  shows "isValidPosition r c \<and> Board s r c = 0"
proof -
  from assms obtain p where f: "List.find (\<lambda>(i, j). IsEmpty s i j) cells = Some p" and p: "p = (r, c)"
    by (auto simp: findEmptyCell_def split: option.splits)
  from f have "p \<in> set cells" "(\<lambda>(i, j). IsEmpty s i j) p"
    using find_Some_mem[OF f] by auto
  with p show ?thesis by (auto simp: in_cells IsEmpty_cell)
qed

lemma findEmptyCell_none:
  assumes "fst (findEmptyCell s) = - 1"
  shows "\<forall>i j. isValidPosition i j \<longrightarrow> Board s i j \<noteq> 0"
proof (intro allI impI)
  fix i j assume v: "isValidPosition i j"
  show "Board s i j \<noteq> 0"
  proof (cases "List.find (\<lambda>(i, j). IsEmpty s i j) cells")
    case None
    then have "\<not> IsEmpty s i j" using v by (auto simp: find_None_iff in_cells[symmetric])
    then show ?thesis using v by (simp add: IsEmpty_cell)
  next
    case (Some p)
    then have "p \<in> set cells" by (simp add: find_Some_mem)
    then have "fst p \<noteq> - 1" by (auto simp: set_cells)
    with Some assms show ?thesis by (auto simp: findEmptyCell_def split: prod.splits)
  qed
qed

lemma finite_emptySet: "finite (emptySet s)"
  by (simp add: emptySet_def)

lemma emptySet_assign:
  "v \<noteq> 0 \<Longrightarrow> emptySet (assign s r c v) = emptySet s - {(r, c)}"
  by (auto simp: emptySet_def Board_assign)

lemma card_emptySet_assign:
  assumes "isValidPosition r c" "Board s r c = 0" "v \<noteq> 0"
  shows "Suc (card (emptySet (assign s r c v))) = card (emptySet s)"
proof -
  have "(r, c) \<in> emptySet s" using assms by (simp add: emptySet_def in_cells)
  then show ?thesis
    unfolding emptySet_assign[OF assms(3)]
    by (rule card_Suc_Diff1[OF finite_emptySet])
qed

lemma card_emptySet_le: "card (emptySet s) \<le> 81"
proof -
  have "card (emptySet s) \<le> card (set cells)"
    by (rule card_mono) (auto simp: emptySet_def)
  also have "\<dots> = 81" using distinct_card[OF distinct_cells] length_cells by simp
  finally show ?thesis .
qed

lemma fold_count:
  "fold (\<lambda>(i, j) (count::int). if Q i j then count + 1 else count) xs a =
     a + int (length (filter (\<lambda>(i, j). Q i j) xs))"
  by (induction xs arbitrary: a) auto

lemma CountEmptyCells_card: "CountEmptyCells s = int (card (emptySet s))"
proof -
  have "CountEmptyCells s = int (length (filter (\<lambda>(i, j). IsEmpty s i j) cells))"
    unfolding CountEmptyCells_def by (subst fold_count) simp
  also have "\<dots> = int (card {p \<in> set cells. (\<lambda>(i, j). IsEmpty s i j) p})"
    using distinct_cells by (simp add: distinct_length_filter Int_def conj_commute)
  also have "{p \<in> set cells. (\<lambda>(i, j). IsEmpty s i j) p} = emptySet s"
    by (auto simp: emptySet_def in_cells IsEmpty_cell)
  finally show ?thesis .
qed

section \<open>The backtracking search\<close>

lemma IsValidMove_pair: "IsValidMove s row col v = (fst (IsValidMove s row col v), s)"
  by (simp add: prod_eq_iff IsValidMove_frame)

lemma IsValidMove_True_bounds:
  "fst (IsValidMove s row col v) \<Longrightarrow> isValidPosition row col \<and> isValidValue v"
  by (auto simp: IsValidMove_def split: if_splits)

lemma SetCell_after_valid:
  "fst (IsValidMove s row col v) \<Longrightarrow> snd (SetCell s row col v) = assign s row col v"
  using IsValidMove_True_bounds[of s row col v] by (simp add: SetCell_def)

lemma tryNumbers_Cons:
  "tryNumbers d row col (num # nums) g s =
     (if fst (IsValidMove s row col num) then
        (case fillBoard d g (assign s row col num) of
           None \<Rightarrow> None
         | Some (ok, g2, s2) \<Rightarrow>
             if ok then Some (True, g2, s2)
             else tryNumbers d row col nums g2 (snd (ClearCell s2 row col)))
      else tryNumbers d row col nums g s)"
  by (subst tryNumbers.simps, subst IsValidMove_pair)
     (simp add: Let_def SetCell_after_valid)

lemma fillBoard_Suc:
  "fillBoard (Suc d) g s =
     (if fst (findEmptyCell s) = - 1 then Some (True, g, s)
      else tryNumbers d (fst (findEmptyCell s)) (snd (findEmptyCell s))
             (fst (getRandomNumbers g)) (snd (getRandomNumbers g)) s)"
  by (simp add: Let_def split: prod.splits)

declare fillBoard.simps(2) [simp del] tryNumbers.simps(2) [simp del]

lemma ClearCell_assign_empty:
  "isValidPosition row col \<Longrightarrow> Board s row col = 0 \<Longrightarrow>
     snd (ClearCell (assign s row col v) row col) = s"
  using assign_restore[of s row col v] by (simp add: ClearCell_def)

lemma fill_frame:
  shows "fillBoard d g s = Some (False, g', s') \<Longrightarrow> s' = s"
    and "tryNumbers d row col nums g s = Some (False, g', s') \<Longrightarrow>
           isValidPosition row col \<Longrightarrow> Board s row col = 0 \<Longrightarrow> s' = s"
proof (induction d g s and d row col nums g s arbitrary: g' s' and g' s'
       rule: fillBoard_tryNumbers.induct)
  case (1 g s)
  then show ?case by simp
next
  case (2 d g s)
  let ?r = "fst (findEmptyCell s)" and ?c = "snd (findEmptyCell s)"
  from "2.prems" have ne: "?r \<noteq> - 1" and
    t: "tryNumbers d ?r ?c (fst (getRandomNumbers g)) (snd (getRandomNumbers g)) s = Some (False, g', s')"
    by (auto simp: fillBoard_Suc split: if_splits)
  have "isValidPosition ?r ?c \<and> Board s ?r ?c = 0"
    using findEmptyCell_found[of s ?r ?c] ne by simp
  with "2.IH"[OF refl prod.collapse ne refl prod.collapse t] show ?case by simp
next
  case (3 d row col g s)
  then show ?case by simp
next
  case (4 d row col num nums g s)
  have IH1: "\<And>g' s'. fst (IsValidMove s row col num) \<Longrightarrow>
      fillBoard d g (assign s row col num) = Some (False, g', s') \<Longrightarrow> s' = assign s row col num"
    using "4.IH"(1)[OF refl prod.collapse] by (simp add: IsValidMove_frame SetCell_after_valid)
  have IH2: "\<And>g2 s2 g' s'. fst (IsValidMove s row col num) \<Longrightarrow>
      fillBoard d g (assign s row col num) = Some (False, g2, s2) \<Longrightarrow>
      tryNumbers d row col nums g2 (snd (ClearCell s2 row col)) = Some (False, g', s') \<Longrightarrow>
      Board (snd (ClearCell s2 row col)) row col = 0 \<Longrightarrow> s' = snd (ClearCell s2 row col)"
    using "4.IH"(2)[OF refl prod.collapse _ refl _ refl refl, of False] "4.prems"(2)
    by (simp add: IsValidMove_frame SetCell_after_valid)
  have IH3: "\<And>g' s'. \<not> fst (IsValidMove s row col num) \<Longrightarrow>
      tryNumbers d row col nums g s = Some (False, g', s') \<Longrightarrow> s' = s"
    using "4.IH"(3)[OF refl prod.collapse] "4.prems"(2,3) by (simp add: IsValidMove_frame)
  show ?case
  proof (cases "fst (IsValidMove s row col num)")
    case False
    with "4.prems" have t: "tryNumbers d row col nums g s = Some (False, g', s')"
      by (simp add: tryNumbers_Cons)
    from IH3[OF False t] show ?thesis .
  next
    case True
    let ?s1 = "assign s row col num"
    from "4.prems"(1) True obtain g2 s2 where
      f: "fillBoard d g ?s1 = Some (False, g2, s2)" and
      t: "tryNumbers d row col nums g2 (snd (ClearCell s2 row col)) = Some (False, g', s')"
      by (auto simp: tryNumbers_Cons split: option.splits if_splits)
    from IH1[OF True f] have s2: "s2 = ?s1" .
    have c: "snd (ClearCell s2 row col) = s"
      unfolding s2 using "4.prems" by (simp add: ClearCell_assign_empty)
    from IH2[OF True f t] c "4.prems"(3) show ?thesis by simp
  qed
qed

lemma fill_induct [case_names Zero Deeper Nil Cons]:
  assumes zero: "\<And>g s. P 0 g s"
    and deeper: "\<And>d g s.
        (fst (findEmptyCell s) \<noteq> - 1 \<Longrightarrow>
           Q d (fst (findEmptyCell s)) (snd (findEmptyCell s))
               (fst (getRandomNumbers g)) (snd (getRandomNumbers g)) s) \<Longrightarrow>
        P (Suc d) g s"
    and nil: "\<And>d row col g s. Q d row col [] g s"
    and cons: "\<And>d row col num nums g s.
        (fst (IsValidMove s row col num) \<Longrightarrow> P d g (assign s row col num)) \<Longrightarrow>
        (\<And>g2 s2. fst (IsValidMove s row col num) \<Longrightarrow>
           fillBoard d g (assign s row col num) = Some (False, g2, s2) \<Longrightarrow>
           Q d row col nums g2 (snd (ClearCell s2 row col))) \<Longrightarrow>
        (\<not> fst (IsValidMove s row col num) \<Longrightarrow> Q d row col nums g s) \<Longrightarrow>
        Q d row col (num # nums) g s"
  shows "P d g s" and "Q d row col nums g s"
proof (induction d g s and d row col nums g s rule: fillBoard_tryNumbers.induct)
  case (1 g s)
  show ?case by (rule zero)
next
  case (2 d g s)
  show ?case
    by (rule deeper) (rule "2.IH"[OF refl prod.collapse _ refl prod.collapse])
next
  case (3 d row col g s)
  show ?case by (rule nil)
next
  case (4 d row col num nums g s)
  show ?case
  proof (rule cons)
    assume v: "fst (IsValidMove s row col num)"
    show "P d g (assign s row col num)"
      using "4.IH"(1)[OF refl prod.collapse v refl] v
      by (simp add: IsValidMove_frame SetCell_after_valid)
  next
    fix g2 s2
    assume v: "fst (IsValidMove s row col num)"
      and f: "fillBoard d g (assign s row col num) = Some (False, g2, s2)"
    show "Q d row col nums g2 (snd (ClearCell s2 row col))"
      using "4.IH"(2)[OF refl prod.collapse v refl _ refl refl, of False g2 s2] v f
      by (simp add: IsValidMove_frame SetCell_after_valid)
  next
    assume v: "\<not> fst (IsValidMove s row col num)"
    show "Q d row col nums g s"
      using "4.IH"(3)[OF refl prod.collapse v] by (simp add: IsValidMove_frame)
  qed
qed

lemma fill_returns:
  shows "card (emptySet s) < d \<longrightarrow> fillBoard d g s \<noteq> None"
    and "isValidPosition row col \<longrightarrow> Board s row col = 0 \<longrightarrow> 0 \<notin> set nums \<longrightarrow>
           card (emptySet s) \<le> d \<longrightarrow> tryNumbers d row col nums g s \<noteq> None"
proof (induction d g s and d row col nums g s rule: fill_induct)
  case (Zero g s)
  show ?case by simp
next
  case (Deeper d g s)
  show ?case
  proof (cases "fst (findEmptyCell s) = - 1")
    case True
    then show ?thesis by (simp add: fillBoard_Suc)
  next
    case False
    have e: "isValidPosition (fst (findEmptyCell s)) (snd (findEmptyCell s)) \<and>
             Board s (fst (findEmptyCell s)) (snd (findEmptyCell s)) = 0"
      using findEmptyCell_found[of s "fst (findEmptyCell s)" "snd (findEmptyCell s)"] False by simp
    have "0 \<notin> set (fst (getRandomNumbers g))" by (simp add: getRandomNumbers_set)
    with Deeper[OF False] e False show ?thesis by (simp add: fillBoard_Suc)
  qed
next
  case (Nil d row col g s)
  show ?case by simp
next
  case (Cons d row col num nums g s)
  show ?case
  proof (intro impI)
    assume p: "isValidPosition row col" and z: "Board s row col = 0"
      and n: "0 \<notin> set (num # nums)" and c: "card (emptySet s) \<le> d"
    show "tryNumbers d row col (num # nums) g s \<noteq> None"
    proof (cases "fst (IsValidMove s row col num)")
      case False
      with Cons(3)[OF False] p z n c show ?thesis by (simp add: tryNumbers_Cons)
    next
      case True
      from n have "num \<noteq> 0" by auto
      from card_emptySet_assign[OF p z this] c
      have "card (emptySet (assign s row col num)) < d" by simp
      with Cons(1)[OF True] obtain ok g2 s2 where
        f: "fillBoard d g (assign s row col num) = Some (ok, g2, s2)"
        by (cases "fillBoard d g (assign s row col num)") auto
      show ?thesis
      proof (cases ok)
        case True
        with f \<open>fst (IsValidMove s row col num)\<close> show ?thesis by (simp add: tryNumbers_Cons)
      next
        case False
        with f have f': "fillBoard d g (assign s row col num) = Some (False, g2, s2)" by simp
        from fill_frame(1)[OF f'] have "snd (ClearCell s2 row col) = s"
          using p z by (simp add: ClearCell_assign_empty)
        with Cons(2)[OF True f'] p z n c f' True show ?thesis by (simp add: tryNumbers_Cons)
      qed
    qed
  qed
qed

text \<open>
  A deeper bound changes no answer: the bound only cuts a search off, it never steers
  it. With the bound of \<open>GenerateComplete\<close> above the 81 empty cells of a new board,
  the model follows the source's unbounded recursion.
\<close>

lemma fill_deeper:
  shows "\<forall>r. fillBoard d g s = Some r \<longrightarrow> fillBoard (Suc d) g s = Some r"
    and "\<forall>r. tryNumbers d row col nums g s = Some r \<longrightarrow>
           tryNumbers (Suc d) row col nums g s = Some r"
proof (induction d g s and d row col nums g s rule: fill_induct)
  case (Zero g s)
  show ?case by simp
next
  case (Deeper d g s)
  show ?case
  proof (cases "fst (findEmptyCell s) = - 1")
    case True
    then show ?thesis by (simp add: fillBoard_Suc)
  next
    case False
    with Deeper[OF False] show ?thesis by (simp add: fillBoard_Suc)
  qed
next
  case (Nil d row col g s)
  show ?case by simp
next
  case (Cons d row col num nums g s)
  show ?case
  proof (intro allI impI)
    fix r assume res: "tryNumbers d row col (num # nums) g s = Some r"
    show "tryNumbers (Suc d) row col (num # nums) g s = Some r"
    proof (cases "fst (IsValidMove s row col num)")
      case False
      with res Cons(3)[OF False] show ?thesis by (simp add: tryNumbers_Cons)
    next
      case True
      from res True obtain ok g2 s2 where
        f: "fillBoard d g (assign s row col num) = Some (ok, g2, s2)"
        by (cases "fillBoard d g (assign s row col num)") (auto simp: tryNumbers_Cons)
      with Cons(1)[OF True] have f': "fillBoard (Suc d) g (assign s row col num) = Some (ok, g2, s2)"
        by simp
      show ?thesis
      proof (cases ok)
        case True
        with res f f' \<open>fst (IsValidMove s row col num)\<close> show ?thesis
          by (auto simp: tryNumbers_Cons)
      next
        case False
        with f have ff: "fillBoard d g (assign s row col num) = Some (False, g2, s2)" by simp
        have t: "tryNumbers d row col nums g2 (snd (ClearCell s2 row col)) = Some r"
          using res ff True by (simp add: tryNumbers_Cons)
        with Cons(2)[OF True ff]
        have "tryNumbers (Suc d) row col nums g2 (snd (ClearCell s2 row col)) = Some r"
          by blast
        then show ?thesis using f' False True by (simp add: tryNumbers_Cons)
      qed
    qed
  qed
qed

lemma fillBoard_depth_mono:
  "fillBoard d g s = Some r \<Longrightarrow> fillBoard (d + k) g s = Some r"
  by (induction k) (simp_all add: fill_deeper(1))

section \<open>The search keeps the board valid and misses no solution\<close>

lemma inRange_iff:
  "inRange s \<longleftrightarrow> (\<forall>i j. isValidPosition i j \<longrightarrow> 0 \<le> Board s i j \<and> Board s i j \<le> 9)"
  by (auto simp: inRange_def list_all_iff in_cells[symmetric])

lemma isValidPosition_set: "isValidPosition i j \<longleftrightarrow> i \<in> {0..8} \<and> j \<in> {0..8}"
  by (auto simp: isValidPosition_def)

lemma IsValid_iff:
  "IsValid s \<longleftrightarrow>
     (\<forall>i j. isValidPosition i j \<and> Board s i j \<noteq> 0 \<longrightarrow> isValidPlacement s i j (Board s i j))"
proof -
  have "IsValid s \<longleftrightarrow>
      \<not> (\<exists>i\<in>{0..8}. \<exists>j\<in>{0..8}. Board s i j \<noteq> 0 \<and> \<not> isValidPlacement s i j (Board s i j))"
    unfolding IsValid_def list_ex_iff set_upto by simp
  then show ?thesis unfolding isValidPosition_set by blast
qed

lemma peer_sym: "isValidPosition row col \<Longrightarrow> peer row col i j \<Longrightarrow> peer i j row col"
  by (auto simp: peer_def isValidPosition_def)

lemma peer_valid: "peer row col i j \<Longrightarrow> isValidPosition i j"
  by (auto simp: peer_def isValidPosition_def)

lemma IsValid_peer:
  assumes "IsValid s" "isValidPosition i j" "Board s i j \<noteq> 0" "peer i j i' j'"
  shows "Board s i' j' \<noteq> Board s i j"
proof -
  from assms(1-3) have "isValidPlacement s i j (Board s i j)" by (simp add: IsValid_iff)
  with assms(2-4) show ?thesis by (simp add: isValidPlacement_peer)
qed

lemma IsValidMove_keeps_valid:
  assumes val: "IsValid s" and pos: "isValidPosition r c" and mv: "fst (IsValidMove s r c v)"
    and z: "Board s r c = 0"
  shows "IsValid (assign s r c v)"
proof (cases "v = 0")
  case True
  with z val show ?thesis by (simp add: assign_same)
next
  case False
  from mv have vv: "isValidValue v" by (auto dest: IsValidMove_True_bounds)
  with False have v19: "1 \<le> v" "v \<le> 9" by (auto simp: isValidValue_def)
  have m: "\<And>i j. peer r c i j \<Longrightarrow> Board s i j \<noteq> v"
    using mv IsValidMove_peer[OF pos v19] by simp
  let ?s = "assign s r c v"
  show ?thesis
    unfolding IsValid_iff
  proof (intro allI impI, elim conjE)
    fix i j assume p: "isValidPosition i j" and nz: "Board ?s i j \<noteq> 0"
    show "isValidPlacement ?s i j (Board ?s i j)"
    proof (cases "i = r \<and> j = c")
      case True
      have "isValidPlacement ?s r c v"
        unfolding isValidPlacement_peer[OF pos False]
        using m by (auto simp: Board_assign peer_def)
      with True show ?thesis by (simp add: Board_assign)
    next
      case False
      then have b: "Board ?s i j = Board s i j" by (auto simp: Board_assign)
      with nz have nz': "Board s i j \<noteq> 0" by simp
      have "\<And>i' j'. peer i j i' j' \<Longrightarrow> Board ?s i' j' \<noteq> Board s i j"
      proof -
        fix i' j' assume q: "peer i j i' j'"
        show "Board ?s i' j' \<noteq> Board s i j"
        proof (cases "i' = r \<and> j' = c")
          case True
          with q have "peer r c i j" using peer_sym[OF p] by blast
          from m[OF this] True show ?thesis by (simp add: Board_assign)
        next
          case False
          then have "Board ?s i' j' = Board s i' j'" by (auto simp: Board_assign)
          with IsValid_peer[OF val p nz' q] show ?thesis by simp
        qed
      qed
      then show ?thesis
        unfolding b isValidPlacement_peer[OF p nz'] by blast
    qed
  qed
qed

lemma inRange_assign:
  "inRange s \<Longrightarrow> isValidValue v \<Longrightarrow> inRange (assign s r c v)"
  by (auto simp: inRange_iff Board_assign isValidValue_def)

lemma solution_move_valid:
  assumes sol: "isSolution t" and ext: "extends s t" and pos: "isValidPosition r c"
  shows "fst (IsValidMove s r c (Board t r c))"
proof -
  let ?v = "Board t r c"
  from sol have full: "\<And>i j. isValidPosition i j \<Longrightarrow> Board t i j \<noteq> 0"
    and val: "IsValid t" and rng: "\<And>i j. isValidPosition i j \<Longrightarrow> 0 \<le> Board t i j \<and> Board t i j \<le> 9"
    by (auto simp: isSolution_def IsComplete_iff inRange_iff isValidPosition_def)
  from full[OF pos] rng[OF pos] have v19: "1 \<le> ?v" "?v \<le> 9" by auto
  have "\<And>i j. peer r c i j \<Longrightarrow> Board s i j \<noteq> ?v"
  proof -
    fix i j assume q: "peer r c i j"
    show "Board s i j \<noteq> ?v"
    proof (cases "Board s i j = 0")
      case True
      with v19 show ?thesis by simp
    next
      case False
      with ext peer_valid[OF q] have "Board t i j = Board s i j" by (simp add: extends_def)
      with IsValid_peer[OF val pos full[OF pos] q] show ?thesis by simp
    qed
  qed
  then show ?thesis by (simp add: IsValidMove_peer[OF pos v19])
qed

lemma isFilled_iff: "isFilled s \<longleftrightarrow> (\<forall>i j. isValidPosition i j \<longrightarrow> Board s i j \<noteq> 0)"
  by (auto simp: isFilled_def list_all_iff in_cells[symmetric])

lemma fill_sound:
  shows "IsValid s \<longrightarrow> inRange s \<longrightarrow>
           (\<forall>g' s'. fillBoard d g s = Some (True, g', s') \<longrightarrow>
                    IsValid s' \<and> inRange s' \<and> isFilled s')"
    and "IsValid s \<longrightarrow> inRange s \<longrightarrow> isValidPosition row col \<longrightarrow> Board s row col = 0 \<longrightarrow>
           (\<forall>g' s'. tryNumbers d row col nums g s = Some (True, g', s') \<longrightarrow>
                    IsValid s' \<and> inRange s' \<and> isFilled s')"
proof (induction d g s and d row col nums g s rule: fill_induct)
  case (Zero g s)
  show ?case by simp
next
  case (Deeper d g s)
  show ?case
  proof (cases "fst (findEmptyCell s) = - 1")
    case True
    from findEmptyCell_none[OF True] have "isFilled s" by (simp add: isFilled_iff)
    with True show ?thesis by (simp add: fillBoard_Suc)
  next
    case False
    have "isValidPosition (fst (findEmptyCell s)) (snd (findEmptyCell s)) \<and>
          Board s (fst (findEmptyCell s)) (snd (findEmptyCell s)) = 0"
      using findEmptyCell_found[of s "fst (findEmptyCell s)" "snd (findEmptyCell s)"] False by simp
    with Deeper[OF False] False show ?thesis by (simp add: fillBoard_Suc)
  qed
next
  case (Nil d row col g s)
  show ?case by simp
next
  case (Cons d row col num nums g s)
  show ?case
  proof (intro impI allI)
    fix g' s'
    assume val: "IsValid s" and rng: "inRange s" and p: "isValidPosition row col"
      and z: "Board s row col = 0"
      and res: "tryNumbers d row col (num # nums) g s = Some (True, g', s')"
    show "IsValid s' \<and> inRange s' \<and> isFilled s'"
    proof (cases "fst (IsValidMove s row col num)")
      case False
      with res have "tryNumbers d row col nums g s = Some (True, g', s')"
        by (simp add: tryNumbers_Cons)
      with Cons(3)[OF False] val rng p z show ?thesis by simp
    next
      case True
      let ?s1 = "assign s row col num"
      have v1: "IsValid ?s1" by (rule IsValidMove_keeps_valid[OF val p True z])
      have r1: "inRange ?s1"
        using rng IsValidMove_True_bounds[OF True] by (simp add: inRange_assign)
      from res True obtain ok g2 s2 where f: "fillBoard d g ?s1 = Some (ok, g2, s2)"
        by (cases "fillBoard d g ?s1") (auto simp: tryNumbers_Cons)
      show ?thesis
      proof (cases ok)
        case True
        with f res \<open>fst (IsValidMove s row col num)\<close> have "g' = g2" "s' = s2"
          by (simp_all add: tryNumbers_Cons)
        with Cons(1)[OF \<open>fst (IsValidMove s row col num)\<close>] v1 r1 f True show ?thesis by simp
      next
        case False
        with f have f': "fillBoard d g ?s1 = Some (False, g2, s2)" by simp
        from fill_frame(1)[OF f'] have c: "snd (ClearCell s2 row col) = s"
          using p z by (simp add: ClearCell_assign_empty)
        from res True f' have "tryNumbers d row col nums g2 s = Some (True, g', s')"
          by (simp add: tryNumbers_Cons c)
        with Cons(2)[OF True f'] c val rng p z show ?thesis by simp
      qed
    qed
  qed
qed

lemma solution_digit:
  assumes "isSolution t" "isValidPosition r c"
  shows "Board t r c \<in> {1, 2, 3, 4, 5, 6, 7, 8, 9}"
proof -
  from assms have "Board t r c \<noteq> 0" "0 \<le> Board t r c" "Board t r c \<le> 9"
    by (auto simp: isSolution_def IsComplete_iff inRange_iff isValidPosition_def)
  then have "Board t r c \<in> {1..9}" by simp
  also have "{1..9::int} = {1, 2, 3, 4, 5, 6, 7, 8, 9}" by auto
  finally show ?thesis .
qed

lemma extends_assign:
  "extends s t \<Longrightarrow> Board t r c = v \<Longrightarrow> extends (assign s r c v) t"
  by (auto simp: extends_def Board_assign)

lemma fill_complete:
  shows "\<forall>g' s'. fillBoard d g s = Some (False, g', s') \<longrightarrow>
           \<not> (\<exists>t. isSolution t \<and> extends s t)"
    and "isValidPosition row col \<longrightarrow> Board s row col = 0 \<longrightarrow>
           (\<forall>g' s'. tryNumbers d row col nums g s = Some (False, g', s') \<longrightarrow>
              \<not> (\<exists>t. isSolution t \<and> extends s t \<and> Board t row col \<in> set nums))"
proof (induction d g s and d row col nums g s rule: fill_induct)
  case (Zero g s)
  show ?case by simp
next
  case (Deeper d g s)
  show ?case
  proof (cases "fst (findEmptyCell s) = - 1")
    case True
    then show ?thesis by (simp add: fillBoard_Suc)
  next
    case False
    let ?r = "fst (findEmptyCell s)" and ?c = "snd (findEmptyCell s)"
    have e: "isValidPosition ?r ?c \<and> Board s ?r ?c = 0"
      using findEmptyCell_found[of s ?r ?c] False by simp
    have "\<And>t. isSolution t \<Longrightarrow> Board t ?r ?c \<in> set (fst (getRandomNumbers g))"
      using solution_digit e by (simp add: getRandomNumbers_set)
    with Deeper[OF False] e False show ?thesis by (simp add: fillBoard_Suc) blast
  qed
next
  case (Nil d row col g s)
  show ?case by simp
next
  case (Cons d row col num nums g s)
  show ?case
  proof (intro impI allI notI, elim exE conjE)
    fix g' s' t
    assume p: "isValidPosition row col" and z: "Board s row col = 0"
      and res: "tryNumbers d row col (num # nums) g s = Some (False, g', s')"
      and sol: "isSolution t" and ext: "extends s t" and mem: "Board t row col \<in> set (num # nums)"
    show False
    proof (cases "fst (IsValidMove s row col num)")
      case False
      with res have r: "tryNumbers d row col nums g s = Some (False, g', s')"
        by (simp add: tryNumbers_Cons)
      with Cons(3)[OF False] p z sol ext have "Board t row col \<notin> set nums" by blast
      with mem have "Board t row col = num" by simp
      with solution_move_valid[OF sol ext p] False show False by simp
    next
      case True
      let ?s1 = "assign s row col num"
      from res True obtain g2 s2 where f: "fillBoard d g ?s1 = Some (False, g2, s2)"
        and r: "tryNumbers d row col nums g2 (snd (ClearCell s2 row col)) = Some (False, g', s')"
        by (auto simp: tryNumbers_Cons split: option.splits if_splits)
      from fill_frame(1)[OF f] have c: "snd (ClearCell s2 row col) = s"
        using p z by (simp add: ClearCell_assign_empty)
      from Cons(2)[OF True f] r c p z sol ext have "Board t row col \<notin> set nums" by auto
      with mem have "Board t row col = num" by simp
      from extends_assign[OF ext this] Cons(1)[OF True] f sol show False by blast
    qed
  qed
qed

section \<open>What the search produces\<close>

lemma sample_is_solution: "isSolution (NewSudokuWithPuzzle GetSampleSolution)"
  by code_simp

lemma extends_NewSudoku: "extends NewSudoku t"
  by (simp add: extends_def NewSudoku_def)

lemma IsValid_NewSudoku: "IsValid NewSudoku"
  by (simp add: IsValid_iff NewSudoku_def)

lemma inRange_NewSudoku: "inRange NewSudoku"
  by (simp add: inRange_iff NewSudoku_def)

lemma fillBoard_NewSudoku:
  "\<exists>g' b. fillBoard 82 g NewSudoku = Some (True, g', b) \<and> IsValid b \<and> inRange b \<and> isFilled b"
proof -
  have "card (emptySet NewSudoku) < 82"
    using card_emptySet_le[of NewSudoku] by simp
  with fill_returns(1)[of NewSudoku 82 g] obtain ok g' b where
    f: "fillBoard 82 g NewSudoku = Some (ok, g', b)"
    by (cases "fillBoard 82 g NewSudoku") auto
  have ok
  proof (rule ccontr)
    assume "\<not> ok"
    with f have "fillBoard 82 g NewSudoku = Some (False, g', b)" by simp
    with fill_complete(1)[of 82 g NewSudoku] sample_is_solution extends_NewSudoku
    show False by blast
  qed
  with f have f': "fillBoard 82 g NewSudoku = Some (True, g', b)" by simp
  with fill_sound(1)[of NewSudoku 82 g] IsValid_NewSudoku inRange_NewSudoku
  show ?thesis by blast
qed

lemma digits_mset:
  assumes "distinct xs" "length xs = 9" "set xs \<subseteq> {1..9::int}"
  shows "mset xs = mset [1, 2, 3, 4, 5, 6, 7, 8, 9]"
proof -
  let ?ys = "[1, 2, 3, 4, 5, 6, 7, 8, 9::int]"
  have d: "distinct ?ys" by simp
  have "card (set xs) = 9" using assms(1,2) by (simp add: distinct_card)
  then have "set xs = {1..9}"
    using assms(3) by (intro card_subset_eq) auto
  also have "{1..9::int} = set ?ys" by auto
  finally have "set xs = set ?ys" .
  with set_eq_iff_mset_eq_distinct[OF assms(1) d] show ?thesis by blast
qed

lemma filled_digit:
  assumes "inRange s" "isFilled s" "isValidPosition i j"
  shows "Board s i j \<in> {1..9}"
proof -
  from assms have "0 \<le> Board s i j" "Board s i j \<le> 9" "Board s i j \<noteq> 0"
    by (auto simp: inRange_iff isFilled_iff)
  then show ?thesis by simp
qed

lemma row_peer: "isValidPosition i j \<Longrightarrow> isValidPosition i j' \<Longrightarrow> j \<noteq> j' \<Longrightarrow> peer i j i j'"
  by (auto simp: peer_def isValidPosition_def)

lemma col_peer: "isValidPosition i j \<Longrightarrow> isValidPosition i' j \<Longrightarrow> i \<noteq> i' \<Longrightarrow> peer i j i' j"
  by (auto simp: peer_def isValidPosition_def)

lemma rowValues_mset:
  assumes "IsValid s" "inRange s" "isFilled s" "0 \<le> i" "i \<le> 8"
  shows "mset (rowValues s i) = mset [1, 2, 3, 4, 5, 6, 7, 8, 9]"
proof (rule digits_mset)
  have p: "\<And>j. j \<in> {0..8} \<Longrightarrow> isValidPosition i j"
    using assms(4,5) by (simp add: isValidPosition_def)
  have "inj_on (\<lambda>j. Board s i j) {0..8}"
  proof (rule inj_onI)
    fix j j' assume a: "j \<in> {0..8}" "j' \<in> {0..8}" "Board s i j = Board s i j'"
    show "j = j'"
    proof (rule ccontr)
      assume "j \<noteq> j'"
      from row_peer[OF p[OF a(1)] p[OF a(2)] this] have "peer i j i j'" .
      moreover have "Board s i j \<noteq> 0" using assms(3) p[OF a(1)] by (simp add: isFilled_iff)
      ultimately show False using IsValid_peer[OF assms(1) p[OF a(1)]] a(3) by metis
    qed
  qed
  then show "distinct (rowValues s i)"
    by (simp add: rowValues_def distinct_map)
  show "length (rowValues s i) = 9" by (simp add: rowValues_def)
  show "set (rowValues s i) \<subseteq> {1..9}"
    using filled_digit[OF assms(2,3) p] by (auto simp: rowValues_def)
qed

lemma colValues_mset:
  assumes "IsValid s" "inRange s" "isFilled s" "0 \<le> j" "j \<le> 8"
  shows "mset (colValues s j) = mset [1, 2, 3, 4, 5, 6, 7, 8, 9]"
proof (rule digits_mset)
  have p: "\<And>i. i \<in> {0..8} \<Longrightarrow> isValidPosition i j"
    using assms(4,5) by (simp add: isValidPosition_def)
  have "inj_on (\<lambda>i. Board s i j) {0..8}"
  proof (rule inj_onI)
    fix i i' assume a: "i \<in> {0..8}" "i' \<in> {0..8}" "Board s i j = Board s i' j"
    show "i = i'"
    proof (rule ccontr)
      assume "i \<noteq> i'"
      from col_peer[OF p[OF a(1)] p[OF a(2)] this] have "peer i j i' j" .
      moreover have "Board s i j \<noteq> 0" using assms(3) p[OF a(1)] by (simp add: isFilled_iff)
      ultimately show False using IsValid_peer[OF assms(1) p[OF a(1)]] a(3) by metis
    qed
  qed
  then show "distinct (colValues s j)"
    by (simp add: colValues_def distinct_map)
  show "length (colValues s j) = 9" by (simp add: colValues_def)
  show "set (colValues s j) \<subseteq> {1..9}"
    using filled_digit[OF assms(2,3) p] by (auto simp: colValues_def)
qed

lemma box_div: "3 * b \<le> x \<Longrightarrow> x \<le> 3 * b + 2 \<Longrightarrow> x div 3 = (b::int)"
  by presburger

lemma boxValues_mset:
  assumes "IsValid s" "inRange s" "isFilled s" "0 \<le> bi" "bi \<le> 2" "0 \<le> bj" "bj \<le> 2"
  shows "mset (boxValues s bi bj) = mset [1, 2, 3, 4, 5, 6, 7, 8, 9]"
proof (rule digits_mset)
  let ?B = "{3 * bi..3 * bi + 2} \<times> {3 * bj..3 * bj + 2}"
  have p: "\<And>q. q \<in> ?B \<Longrightarrow> isValidPosition (fst q) (snd q)"
    using assms(4-7) by (auto simp: isValidPosition_def)
  have pr: "\<And>q q'. q \<in> ?B \<Longrightarrow> q' \<in> ?B \<Longrightarrow> q \<noteq> q' \<Longrightarrow> peer (fst q) (snd q) (fst q') (snd q')"
  proof -
    fix q q' :: "int \<times> int" assume a: "q \<in> ?B" "q' \<in> ?B" "q \<noteq> q'"
    from a(1,2) have "fst q div 3 = fst q' div 3" "snd q div 3 = snd q' div 3"
      by (auto simp: box_div)
    moreover from a(3) have "fst q' \<noteq> fst q \<or> snd q' \<noteq> snd q" by (auto simp: prod_eq_iff)
    ultimately show "peer (fst q) (snd q) (fst q') (snd q')"
      using p[OF a(2)] by (simp add: peer_def isValidPosition_def)
  qed
  have "inj_on (\<lambda>(i, j). Board s i j) ?B"
  proof (rule inj_onI)
    fix q q' assume a: "q \<in> ?B" "q' \<in> ?B"
      "(case q of (i, j) \<Rightarrow> Board s i j) = (case q' of (i, j) \<Rightarrow> Board s i j)"
    show "q = q'"
    proof (rule ccontr)
      assume "q \<noteq> q'"
      from pr[OF a(1,2) this] have "peer (fst q) (snd q) (fst q') (snd q')" .
      moreover have "Board s (fst q) (snd q) \<noteq> 0"
        using assms(3) p[OF a(1)] by (simp add: isFilled_iff)
      moreover have "Board s (fst q) (snd q) = Board s (fst q') (snd q')"
        using a(3) by (simp add: case_prod_beta)
      ultimately show False
        using IsValid_peer[OF assms(1) p[OF a(1)]] by metis
    qed
  qed
  then show "distinct (boxValues s bi bj)"
    by (simp add: boxValues_def distinct_map distinct_product)
  show "length (boxValues s bi bj) = 9" by (simp add: boxValues_def)
  show "set (boxValues s bi bj) \<subseteq> {1..9}"
    using filled_digit[OF assms(2,3) p] by (auto simp: boxValues_def)
qed

lemma GenerateComplete_result:
  "\<exists>b g'. GenerateComplete g = Some (b, g') \<and> IsValid b \<and> inRange b \<and> isFilled b"
  using fillBoard_NewSudoku[of g] by (auto simp: GenerateComplete_def)

lemma CountEmptyCells_SetCell:
  assumes "fst (findEmptyCell s) \<noteq> - 1" "num \<noteq> 0" "isValidValue num"
  shows "CountEmptyCells (snd (SetCell s (fst (findEmptyCell s)) (snd (findEmptyCell s)) num)) =
         CountEmptyCells s - 1"
proof -
  let ?r = "fst (findEmptyCell s)" and ?c = "snd (findEmptyCell s)"
  have e: "isValidPosition ?r ?c" "Board s ?r ?c = 0"
    using findEmptyCell_found[of s ?r ?c] assms(1) by simp_all
  from card_emptySet_assign[OF e assms(2)] e(1) assms(3) show ?thesis
    by (simp add: CountEmptyCells_card SetCell_def)
qed

text \<open>
  Claim C1. \<open>GenerateComplete\<close> returns a board, whatever the random source; the
  board has no empty cell, \<open>IsValid\<close> holds of it, and the values of each row, of each
  column and of each 3x3 box are the digits 1 to 9, each once.
\<close>

theorem GenerateComplete_full_valid:
  "\<exists>b g'. GenerateComplete g = Some (b, g') \<and>
     (\<forall>i j. 0 \<le> i \<and> i \<le> 8 \<and> 0 \<le> j \<and> j \<le> 8 \<longrightarrow> Board b i j \<noteq> 0) \<and>
     IsValid b \<and>
     (\<forall>i. 0 \<le> i \<and> i \<le> 8 \<longrightarrow>
        mset (rowValues b i) = mset [1, 2, 3, 4, 5, 6, 7, 8, 9] \<and>
        mset (colValues b i) = mset [1, 2, 3, 4, 5, 6, 7, 8, 9]) \<and>
     (\<forall>bi bj. 0 \<le> bi \<and> bi \<le> 2 \<and> 0 \<le> bj \<and> bj \<le> 2 \<longrightarrow>
        mset (boxValues b bi bj) = mset [1, 2, 3, 4, 5, 6, 7, 8, 9])"
proof -
  from GenerateComplete_result[of g] obtain b g' where
    r: "GenerateComplete g = Some (b, g')" and v: "IsValid b" and n: "inRange b" and f: "isFilled b"
    by blast
  have "\<forall>i j. 0 \<le> i \<and> i \<le> 8 \<and> 0 \<le> j \<and> j \<le> 8 \<longrightarrow> Board b i j \<noteq> 0"
    using f by (simp add: isFilled_iff isValidPosition_def)
  moreover have "\<forall>i. 0 \<le> i \<and> i \<le> 8 \<longrightarrow>
        mset (rowValues b i) = mset [1, 2, 3, 4, 5, 6, 7, 8, 9] \<and>
        mset (colValues b i) = mset [1, 2, 3, 4, 5, 6, 7, 8, 9]"
    using rowValues_mset[OF v n f] colValues_mset[OF v n f] by blast
  moreover have "\<forall>bi bj. 0 \<le> bi \<and> bi \<le> 2 \<and> 0 \<le> bj \<and> bj \<le> 2 \<longrightarrow>
        mset (boxValues b bi bj) = mset [1, 2, 3, 4, 5, 6, 7, 8, 9]"
    using boxValues_mset[OF v n f] by blast
  ultimately show ?thesis using r v by blast
qed

theorem GenerateComplete_full_valid_witness:
  "\<exists>b g'. GenerateComplete \<lparr>rand = (\<lambda>k. 0)\<rparr> = Some (b, g') \<and>
     Board b 0 0 \<noteq> 0 \<and> Board b 8 8 \<noteq> 0 \<and> IsValid b \<and>
     mset (rowValues b 0) = mset [1, 2, 3, 4, 5, 6, 7, 8, 9] \<and>
     mset (colValues b 8) = mset [1, 2, 3, 4, 5, 6, 7, 8, 9] \<and>
     mset (boxValues b 1 2) = mset [1, 2, 3, 4, 5, 6, 7, 8, 9]"
proof -
  from GenerateComplete_full_valid [of "\<lparr>rand = (\<lambda>k. 0)\<rparr>"] obtain b g' where
    r: "GenerateComplete \<lparr>rand = (\<lambda>k. 0)\<rparr> = Some (b, g')"
    and f: "\<forall>i j. 0 \<le> i \<and> i \<le> 8 \<and> 0 \<le> j \<and> j \<le> 8 \<longrightarrow> Board b i j \<noteq> 0"
    and v: "IsValid b"
    and l: "\<forall>i. 0 \<le> i \<and> i \<le> 8 \<longrightarrow>
        mset (rowValues b i) = mset [1, 2, 3, 4, 5, 6, 7, 8, 9] \<and>
        mset (colValues b i) = mset [1, 2, 3, 4, 5, 6, 7, 8, 9]"
    and x: "\<forall>bi bj. 0 \<le> bi \<and> bi \<le> 2 \<and> 0 \<le> bj \<and> bj \<le> 2 \<longrightarrow>
        mset (boxValues b bi bj) = mset [1, 2, 3, 4, 5, 6, 7, 8, 9]"
    by blast
  have "Board b 0 0 \<noteq> 0" "Board b 8 8 \<noteq> 0" using f by simp_all
  moreover have "mset (rowValues b 0) = mset [1, 2, 3, 4, 5, 6, 7, 8, 9]"
    "mset (colValues b 8) = mset [1, 2, 3, 4, 5, 6, 7, 8, 9]" using l by simp_all
  moreover have "mset (boxValues b 1 2) = mset [1, 2, 3, 4, 5, 6, 7, 8, 9]" using x by simp
  ultimately show ?thesis using r v by blast
qed

text \<open>
  Claim C6. The search returns on every board once the depth allowed exceeds the number
  of empty cells, which is at most 81: the board passed to a recursive call has one
  empty cell fewer, the cell found empty having received one of the digits drawn. On a
  new, empty board the search returns true with a complete board.
\<close>

theorem fillBoard_terminates:
  "(nat (CountEmptyCells s) < d \<longrightarrow> (\<exists>r. fillBoard d g s = Some r)) \<and>
   CountEmptyCells s \<le> 81 \<and>
   (fst (findEmptyCell s) \<noteq> - 1 \<and> num \<in> set (fst (getRandomNumbers g)) \<longrightarrow>
      CountEmptyCells (snd (SetCell s (fst (findEmptyCell s)) (snd (findEmptyCell s)) num)) =
      CountEmptyCells s - 1) \<and>
   (\<exists>g' b. fillBoard 82 g NewSudoku = Some (True, g', b) \<and> IsComplete b)"
proof (intro conjI impI)
  assume "nat (CountEmptyCells s) < d"
  then have "card (emptySet s) < d" by (simp add: CountEmptyCells_card)
  with fill_returns(1)[of s d g] show "\<exists>r. fillBoard d g s = Some r" by auto
next
  show "CountEmptyCells s \<le> 81"
    using card_emptySet_le[of s] by (simp add: CountEmptyCells_card)
next
  assume a: "fst (findEmptyCell s) \<noteq> - 1 \<and> num \<in> set (fst (getRandomNumbers g))"
  then have "num \<in> {1, 2, 3, 4, 5, 6, 7, 8, 9}" by (simp add: getRandomNumbers_set)
  then have "num \<noteq> 0" "isValidValue num" by (auto simp: isValidValue_def)
  with a show "CountEmptyCells (snd (SetCell s (fst (findEmptyCell s)) (snd (findEmptyCell s)) num)) =
      CountEmptyCells s - 1"
    by (simp add: CountEmptyCells_SetCell)
next
  from fillBoard_NewSudoku[of g] show "\<exists>g' b. fillBoard 82 g NewSudoku = Some (True, g', b) \<and> IsComplete b"
    by (auto simp: IsComplete_iff isFilled_iff isValidPosition_def)
qed

lemma sample_puzzle_count: "CountEmptyCells (NewSudokuWithPuzzle GetSamplePuzzle) = 51"
  by code_simp

lemma sample_puzzle_first_empty: "findEmptyCell (NewSudokuWithPuzzle GetSamplePuzzle) = (0, 2)"
  by code_simp

theorem fillBoard_terminates_witness:
  "(\<exists>r. fillBoard 52 \<lparr>rand = (\<lambda>k. 0)\<rparr> (NewSudokuWithPuzzle GetSamplePuzzle) = Some r) \<and>
   CountEmptyCells (snd (SetCell (NewSudokuWithPuzzle GetSamplePuzzle) 0 2
      (hd (fst (getRandomNumbers \<lparr>rand = (\<lambda>k. 0)\<rparr>))))) = 50"
proof -
  let ?g = "\<lparr>rand = (\<lambda>k. 0)\<rparr>" and ?s = "NewSudokuWithPuzzle GetSamplePuzzle"
  let ?n = "hd (fst (getRandomNumbers ?g))"
  have l: "length (fst (getRandomNumbers ?g)) = 9"
    using arg_cong[OF getRandomNumbers_mset, of size ?g] by simp
  then have "fst (getRandomNumbers ?g) \<noteq> []" by auto
  then have m: "?n \<in> set (fst (getRandomNumbers ?g))" by simp
  from fillBoard_terminates [of ?s 52 ?g ?n] m
  show ?thesis by (simp add: sample_puzzle_count sample_puzzle_first_empty)
qed

section \<open>Removing cells\<close>

lemma copy_cells:
  "Board (fold (\<lambda>(i, j) p. assign p i j (Board c i j)) ps q) i j =
     (if (i, j) \<in> set ps then Board c i j else Board q i j)"
proof (induction ps arbitrary: q)
  case Nil
  show ?case by simp
next
  case (Cons x xs)
  obtain a b where x: "x = (a, b)" by (cases x)
  show ?case
    unfolding x by (simp add: Cons.IH Board_assign)
qed

lemma emptySet_cong:
  "(\<And>i j. isValidPosition i j \<Longrightarrow> Board a i j = Board b i j) \<Longrightarrow> emptySet a = emptySet b"
  by (auto simp: emptySet_def in_cells[symmetric])

lemma removeLoop_only_clears:
  "Board (removeLoop ps removed n p) i j = Board p i j \<or> Board (removeLoop ps removed n p) i j = 0"
proof (induction ps arbitrary: removed p)
  case Nil
  show ?case by simp
next
  case (Cons pos rest)
  obtain row col where pos: "pos = (row, col)" by (cases pos)
  have c: "Board (snd (ClearCell p row col)) i j = Board p i j \<or> Board (snd (ClearCell p row col)) i j = 0"
    by (simp add: ClearCell_def Board_assign)
  show ?case
    using Cons.IH[of "removed + 1" "snd (ClearCell p row col)"] Cons.IH[of removed p] c
    by (auto simp: pos)
qed

lemma emptySet_clear:
  "isValidPosition row col \<Longrightarrow>
     emptySet (snd (ClearCell p row col)) = insert (row, col) (emptySet p)"
  by (auto simp: ClearCell_def emptySet_def Board_assign in_cells)

lemma removeLoop_emptySet:
  assumes "distinct ps" "set ps \<subseteq> set cells" "\<forall>q\<in>set ps. Board p (fst q) (snd q) \<noteq> 0"
  shows "emptySet (removeLoop ps removed n p) = emptySet p \<union> set (take (nat (n - removed)) ps)"
  using assms
proof (induction ps arbitrary: removed p)
  case Nil
  show ?case by simp
next
  case (Cons pos rest)
  obtain row col where pos: "pos = (row, col)" by (cases pos)
  from Cons.prems have v: "isValidPosition row col" and nz: "Board p row col \<noteq> 0"
    by (auto simp: pos in_cells)
  then have ne: "\<not> IsEmpty p row col" by (simp add: IsEmpty_cell)
  show ?case
  proof (cases "removed \<ge> n")
    case True
    then show ?thesis by simp
  next
    case False
    let ?p = "snd (ClearCell p row col)"
    have k: "nat (n - removed) = Suc (nat (n - (removed + 1)))" using False by simp
    have "\<forall>q\<in>set rest. Board ?p (fst q) (snd q) \<noteq> 0"
      using Cons.prems v by (auto simp: ClearCell_def Board_assign pos)
    with Cons.IH[of ?p "removed + 1"] Cons.prems
    have "emptySet (removeLoop rest (removed + 1) n ?p) =
          emptySet ?p \<union> set (take (nat (n - (removed + 1))) rest)" by simp
    with False ne show ?thesis
      unfolding k by (simp add: pos emptySet_clear[OF v])
  qed
qed

lemma shuffled_cells:
  "distinct (fst (shufflePositions cells g)) \<and> set (fst (shufflePositions cells g)) = set cells \<and>
   length (fst (shufflePositions cells g)) = 81"
proof -
  have m: "mset (fst (shufflePositions cells g)) = mset cells" by (rule shufflePositions_mset)
  from m have "distinct (fst (shufflePositions cells g))"
    using distinct_cells by (metis mset_eq_imp_distinct_iff)
  moreover from m have "set (fst (shufflePositions cells g)) = set cells" by (rule mset_eq_setD)
  moreover from m have "length (fst (shufflePositions cells g)) = 81"
    using length_cells by (metis size_mset)
  ultimately show ?thesis by simp
qed

lemma removeCells_unfold:
  "fst (removeCells g c n) =
     removeLoop (fst (shufflePositions cells g)) 0 n
       (fold (\<lambda>(i, j) p. assign p i j (Board c i j)) cells NewSudoku)"
  by (simp add: removeCells_def Let_def split: prod.splits)

lemma removeCells_only_clears:
  assumes "isValidPosition i j" "Board (fst (removeCells g c n)) i j \<noteq> 0"
  shows "Board (fst (removeCells g c n)) i j = Board c i j"
proof -
  let ?copy = "fold (\<lambda>(i, j) p. assign p i j (Board c i j)) cells NewSudoku"
  have "Board ?copy i j = Board c i j"
    using assms(1) by (simp add: copy_cells in_cells)
  with removeLoop_only_clears[of "fst (shufflePositions cells g)" 0 n ?copy i j] assms(2)
  show ?thesis by (simp add: removeCells_unfold)
qed

lemma removeCells_count:
  assumes "isFilled c"
  shows "CountEmptyCells (fst (removeCells g c n)) = min 81 (max 0 n)"
proof -
  let ?copy = "fold (\<lambda>(i, j) p. assign p i j (Board c i j)) cells NewSudoku"
  let ?ps = "fst (shufflePositions cells g)"
  have cp: "\<And>i j. isValidPosition i j \<Longrightarrow> Board ?copy i j = Board c i j"
    by (simp add: copy_cells in_cells)
  have e: "emptySet ?copy = {}"
    using assms cp by (auto simp: emptySet_def isFilled_iff in_cells)
  have nz: "\<forall>q\<in>set ?ps. Board ?copy (fst q) (snd q) \<noteq> 0"
    using assms cp shuffled_cells[of g] by (auto simp: isFilled_iff in_cells)
  have "emptySet (removeLoop ?ps 0 n ?copy) = emptySet ?copy \<union> set (take (nat (n - 0)) ?ps)"
    using shuffled_cells[of g] nz by (intro removeLoop_emptySet) auto
  then have "card (emptySet (fst (removeCells g c n))) = card (set (take (nat n) ?ps))"
    by (simp add: removeCells_unfold e)
  also have "\<dots> = length (take (nat n) ?ps)"
    using shuffled_cells[of g] by (intro distinct_card distinct_take) simp
  also have "\<dots> = min (nat n) 81" using shuffled_cells[of g] by simp
  finally show ?thesis by (simp add: CountEmptyCells_card) 
qed

section \<open>Puzzles\<close>

lemma IsValid_cong:
  assumes "\<And>i j. isValidPosition i j \<Longrightarrow> Board a i j = Board b i j" "IsValid a"
  shows "IsValid b"
  unfolding IsValid_iff
proof (intro allI impI, elim conjE)
  fix i j assume p: "isValidPosition i j" and nz: "Board b i j \<noteq> 0"
  from assms(1)[OF p] nz have nz': "Board a i j \<noteq> 0" by simp
  with assms(2) p have "isValidPlacement a i j (Board a i j)" by (simp add: IsValid_iff)
  then have "\<forall>i' j'. peer i j i' j' \<longrightarrow> Board a i' j' \<noteq> Board a i j"
    by (simp add: isValidPlacement_peer[OF p nz'])
  then have "\<forall>i' j'. peer i j i' j' \<longrightarrow> Board b i' j' \<noteq> Board b i j"
    using assms(1) p peer_valid by metis
  then show "isValidPlacement b i j (Board b i j)"
    by (simp add: isValidPlacement_peer[OF p nz])
qed

lemma createPuzzle_cases:
  "\<exists>n g1. createPuzzle g c d = removeCells g1 c n \<and>
     (d = Easy \<longrightarrow> 35 \<le> n \<and> n \<le> 45) \<and>
     (d = Medium \<longrightarrow> 46 \<le> n \<and> n \<le> 55) \<and>
     (d = Hard \<longrightarrow> 50 \<le> n \<and> n \<le> 59) \<and>
     (d = Expert \<longrightarrow> 54 \<le> n \<and> n \<le> 63) \<and>
     (d \<noteq> Easy \<and> d \<noteq> Medium \<and> d \<noteq> Hard \<and> d \<noteq> Expert \<longrightarrow> n = 40 \<and> g1 = g)"
proof -
  have a: "fst (randIntn g 11) < 11" "fst (randIntn g 10) < 10"
    by (simp_all add: randIntn_less)
  consider "d = Easy" | "d = Medium" | "d = Hard" | "d = Expert"
    | "d \<noteq> Easy \<and> d \<noteq> Medium \<and> d \<noteq> Hard \<and> d \<noteq> Expert" by blast
  then show ?thesis
  proof cases
    case 1
    then have "createPuzzle g c d = removeCells (snd (randIntn g 11)) c (35 + int (fst (randIntn g 11)))"
      by (simp add: createPuzzle_def split: prod.splits)
    with 1 a(1) show ?thesis
      by (intro exI[of _ "35 + int (fst (randIntn g 11))"] exI[of _ "snd (randIntn g 11)"])
         (simp add: Easy_def Medium_def Hard_def Expert_def)
  next
    case 2
    then have "createPuzzle g c d = removeCells (snd (randIntn g 10)) c (46 + int (fst (randIntn g 10)))"
      by (simp add: createPuzzle_def Easy_def Medium_def split: prod.splits)
    with 2 a(2) show ?thesis
      by (intro exI[of _ "46 + int (fst (randIntn g 10))"] exI[of _ "snd (randIntn g 10)"])
         (simp add: Easy_def Medium_def Hard_def Expert_def)
  next
    case 3
    then have "createPuzzle g c d = removeCells (snd (randIntn g 10)) c (50 + int (fst (randIntn g 10)))"
      by (simp add: createPuzzle_def Easy_def Medium_def Hard_def split: prod.splits)
    with 3 a(2) show ?thesis
      by (intro exI[of _ "50 + int (fst (randIntn g 10))"] exI[of _ "snd (randIntn g 10)"])
         (simp add: Easy_def Medium_def Hard_def Expert_def)
  next
    case 4
    then have "createPuzzle g c d = removeCells (snd (randIntn g 10)) c (54 + int (fst (randIntn g 10)))"
      by (simp add: createPuzzle_def Easy_def Medium_def Hard_def Expert_def split: prod.splits)
    with 4 a(2) show ?thesis
      by (intro exI[of _ "54 + int (fst (randIntn g 10))"] exI[of _ "snd (randIntn g 10)"])
         (simp add: Easy_def Medium_def Hard_def Expert_def)
  next
    case 5
    then have "createPuzzle g c d = removeCells g c 40"
      by (simp add: createPuzzle_def)
    with 5 show ?thesis by blast
  qed
qed

lemma GeneratePuzzle_result:
  "\<exists>c g1. GenerateComplete g = Some (c, g1) \<and> IsValid c \<and> inRange c \<and> isFilled c \<and>
     GeneratePuzzle g d = Some (createPuzzle g1 c d)"
  using GenerateComplete_result[of g] by (auto simp: GeneratePuzzle_def)

lemma GeneratePuzzleWithEmptyRatio_result:
  "\<exists>c g1. GenerateComplete g = Some (c, g1) \<and> IsValid c \<and> inRange c \<and> isFilled c \<and>
     GeneratePuzzleWithEmptyRatio fmul g ratio =
       Some (removeCells g1 c (truncate (fmul 81 (min 1 (max 0 ratio)))))"
proof -
  have "(if (if ratio < 0 then 0 else ratio) > 1 then 1 else (if ratio < 0 then 0 else ratio)) =
        min 1 (max 0 ratio)" by auto
  with GenerateComplete_result[of g] show ?thesis
    by (auto simp: GeneratePuzzleWithEmptyRatio_def Let_def)
qed

section \<open>What the puzzle generators return\<close>

text \<open>
  Claim C4. For each of the four difficulties \<open>GeneratePuzzle\<close> returns a board whose
  number of empty cells lies in the range of that difficulty (Easy 35 to 45, Medium 46
  to 55, Hard 50 to 59, Expert 54 to 63), and every cell of it that is not empty holds
  the value of the same cell of the complete board it was made from.
\<close>

theorem GeneratePuzzle_removal_range:
  "\<exists>completed g1 puzzle g2.
     GenerateComplete g = Some (completed, g1) \<and>
     GeneratePuzzle g d = Some (puzzle, g2) \<and>
     (d = Easy \<longrightarrow> 35 \<le> CountEmptyCells puzzle \<and> CountEmptyCells puzzle \<le> 45) \<and>
     (d = Medium \<longrightarrow> 46 \<le> CountEmptyCells puzzle \<and> CountEmptyCells puzzle \<le> 55) \<and>
     (d = Hard \<longrightarrow> 50 \<le> CountEmptyCells puzzle \<and> CountEmptyCells puzzle \<le> 59) \<and>
     (d = Expert \<longrightarrow> 54 \<le> CountEmptyCells puzzle \<and> CountEmptyCells puzzle \<le> 63) \<and>
     (\<forall>i j. 0 \<le> i \<and> i \<le> 8 \<and> 0 \<le> j \<and> j \<le> 8 \<and> Board puzzle i j \<noteq> 0 \<longrightarrow>
            Board puzzle i j = Board completed i j)"
proof -
  from GeneratePuzzle_result[of g d] obtain c g1 where
    gc: "GenerateComplete g = Some (c, g1)" and f: "isFilled c"
    and gp: "GeneratePuzzle g d = Some (createPuzzle g1 c d)" by blast
  from createPuzzle_cases[of g1 c d] obtain n g2 where
    cp: "createPuzzle g1 c d = removeCells g2 c n"
    and e: "d = Easy \<longrightarrow> 35 \<le> n \<and> n \<le> 45"
    and m: "d = Medium \<longrightarrow> 46 \<le> n \<and> n \<le> 55"
    and h: "d = Hard \<longrightarrow> 50 \<le> n \<and> n \<le> 59"
    and x: "d = Expert \<longrightarrow> 54 \<le> n \<and> n \<le> 63" by blast
  let ?p = "fst (removeCells g2 c n)"
  have cnt: "CountEmptyCells ?p = min 81 (max 0 n)" by (rule removeCells_count[OF f])
  have keep: "\<forall>i j. 0 \<le> i \<and> i \<le> 8 \<and> 0 \<le> j \<and> j \<le> 8 \<and> Board ?p i j \<noteq> 0 \<longrightarrow>
            Board ?p i j = Board c i j"
    using removeCells_only_clears[of _ _ g2 c n] by (simp add: isValidPosition_def)
  have "GeneratePuzzle g d = Some (?p, snd (removeCells g2 c n))"
    using gp cp by simp
  moreover have "d = Easy \<longrightarrow> 35 \<le> CountEmptyCells ?p \<and> CountEmptyCells ?p \<le> 45"
    using e cnt by auto
  moreover have "d = Medium \<longrightarrow> 46 \<le> CountEmptyCells ?p \<and> CountEmptyCells ?p \<le> 55"
    using m cnt by auto
  moreover have "d = Hard \<longrightarrow> 50 \<le> CountEmptyCells ?p \<and> CountEmptyCells ?p \<le> 59"
    using h cnt by auto
  moreover have "d = Expert \<longrightarrow> 54 \<le> CountEmptyCells ?p \<and> CountEmptyCells ?p \<le> 63"
    using x cnt by auto
  ultimately show ?thesis using gc keep by blast
qed

theorem GeneratePuzzle_removal_range_witness:
  "(\<exists>puzzle g2. GeneratePuzzle \<lparr>rand = (\<lambda>k. 0)\<rparr> Easy = Some (puzzle, g2) \<and>
      35 \<le> CountEmptyCells puzzle \<and> CountEmptyCells puzzle \<le> 45) \<and>
   (\<exists>puzzle g2. GeneratePuzzle \<lparr>rand = (\<lambda>k. k)\<rparr> Expert = Some (puzzle, g2) \<and>
      54 \<le> CountEmptyCells puzzle \<and> CountEmptyCells puzzle \<le> 63)"
  using GeneratePuzzle_removal_range [of "\<lparr>rand = (\<lambda>k. 0)\<rparr>" Easy]
    GeneratePuzzle_removal_range [of "\<lparr>rand = (\<lambda>k. k)\<rparr>" Expert]
  by blast

text \<open>
  Claim C10. For a difficulty that is none of the four constants, \<open>createPuzzle\<close>
  removes 40 cells, and the board returned by \<open>GeneratePuzzle\<close> has exactly 40 empty
  cells.
\<close>

theorem GeneratePuzzle_unknown_difficulty:
  "d \<noteq> Easy \<and> d \<noteq> Medium \<and> d \<noteq> Hard \<and> d \<noteq> Expert \<longrightarrow>
     (\<exists>completed g1 puzzle g2.
        GenerateComplete g = Some (completed, g1) \<and>
        createPuzzle g1 completed d = removeCells g1 completed 40 \<and>
        GeneratePuzzle g d = Some (puzzle, g2) \<and>
        CountEmptyCells puzzle = 40)"
proof
  assume a: "d \<noteq> Easy \<and> d \<noteq> Medium \<and> d \<noteq> Hard \<and> d \<noteq> Expert"
  from GeneratePuzzle_result[of g d] obtain c g1 where
    gc: "GenerateComplete g = Some (c, g1)" and f: "isFilled c"
    and gp: "GeneratePuzzle g d = Some (createPuzzle g1 c d)" by blast
  from a have cp: "createPuzzle g1 c d = removeCells g1 c 40"
    by (simp add: createPuzzle_def)
  have "CountEmptyCells (fst (removeCells g1 c 40)) = 40"
    using removeCells_count[OF f, of g1 40] by simp
  moreover have "GeneratePuzzle g d = Some (fst (removeCells g1 c 40), snd (removeCells g1 c 40))"
    using gp cp by simp
  ultimately show "\<exists>completed g1 puzzle g2.
        GenerateComplete g = Some (completed, g1) \<and>
        createPuzzle g1 completed d = removeCells g1 completed 40 \<and>
        GeneratePuzzle g d = Some (puzzle, g2) \<and>
        CountEmptyCells puzzle = 40"
    using gc cp by blast
qed

theorem GeneratePuzzle_unknown_difficulty_witness:
  "(\<exists>puzzle g2. GeneratePuzzle \<lparr>rand = (\<lambda>k. 0)\<rparr> 7 = Some (puzzle, g2) \<and>
      CountEmptyCells puzzle = 40) \<and>
   (\<exists>puzzle g2. GeneratePuzzle \<lparr>rand = (\<lambda>k. k)\<rparr> (- 1) = Some (puzzle, g2) \<and>
      CountEmptyCells puzzle = 40)"
proof -
  have "(7::int) \<noteq> Easy \<and> (7::int) \<noteq> Medium \<and> (7::int) \<noteq> Hard \<and> (7::int) \<noteq> Expert"
    "(- 1::int) \<noteq> Easy \<and> (- 1::int) \<noteq> Medium \<and> (- 1::int) \<noteq> Hard \<and> (- 1::int) \<noteq> Expert"
    by (simp_all add: Easy_def Medium_def Hard_def Expert_def)
  with GeneratePuzzle_unknown_difficulty [of 7 "\<lparr>rand = (\<lambda>k. 0)\<rparr>"]
    GeneratePuzzle_unknown_difficulty [of "- 1" "\<lparr>rand = (\<lambda>k. k)\<rparr>"]
  show ?thesis by blast
qed







lemma removeCells_none:
  assumes "isFilled c" "isValidPosition i j"
  shows "Board (fst (removeCells g c 0)) i j = Board c i j"
proof -
  have "CountEmptyCells (fst (removeCells g c 0)) = 0"
    using removeCells_count[OF assms(1), of g 0] by simp
  then have "emptySet (fst (removeCells g c 0)) = {}"
    using finite_emptySet[of "fst (removeCells g c 0)"] by (simp add: CountEmptyCells_card)
  with assms(2) have "Board (fst (removeCells g c 0)) i j \<noteq> 0"
    by (auto simp: emptySet_def in_cells)
  with removeCells_only_clears[OF assms(2)] show ?thesis by blast
qed

lemma removeCells_all:
  assumes "isFilled c" "isValidPosition i j"
  shows "Board (fst (removeCells g c 81)) i j = 0"
proof -
  let ?p = "fst (removeCells g c 81)"
  have "CountEmptyCells ?p = 81"
    using removeCells_count[OF assms(1), of g 81] by simp
  then have "card (emptySet ?p) = card (set cells)"
    using distinct_card[OF distinct_cells] length_cells by (simp add: CountEmptyCells_card)
  moreover have "emptySet ?p \<subseteq> set cells" by (auto simp: emptySet_def)
  ultimately have "emptySet ?p = set cells" by (intro card_subset_eq) simp_all
  with assms(2) have "(i, j) \<in> emptySet ?p" by (simp add: in_cells)
  then show ?thesis by (simp add: emptySet_def)
qed

lemma IsComplete_cong:
  assumes "\<And>i j. isValidPosition i j \<Longrightarrow> Board a i j = Board b i j" "IsValid a" "isFilled a"
  shows "IsComplete b"
proof -
  have "isFilled b" using assms(1,3) by (simp add: isFilled_iff)
  moreover have "IsValid b" by (rule IsValid_cong[OF assms(1,2)])
  ultimately show ?thesis by (simp add: IsComplete_iff isFilled_iff isValidPosition_def)
qed

text \<open>
  Claim C5, as stated, fails: with ratio 0.75 the product is 60.75 (exact in
  \<^verbatim>\<open>float64\<close>, so the exact multiplication stands for it here); the conversion to
  \<^verbatim>\<open>int\<close> drops the fraction and 60 cells are removed, where rounding gives 61.
\<close>

theorem GeneratePuzzleWithEmptyRatio_rounding_counterexample:
  "map_option (\<lambda>r. CountEmptyCells (fst r))
     (GeneratePuzzleWithEmptyRatio (*) \<lparr>rand = (\<lambda>k. 0)\<rparr> (3 / 4)) = Some 60 \<and>
   round (81 * (3 / 4 :: real)) = 61"
proof -
  from GeneratePuzzleWithEmptyRatio_result[of "\<lparr>rand = (\<lambda>k. 0)\<rparr>" "(*)" "3 / 4"]
  obtain c g1 where f: "isFilled c"
    and r: "GeneratePuzzleWithEmptyRatio (*) \<lparr>rand = (\<lambda>k. 0)\<rparr> (3 / 4) =
       Some (removeCells g1 c (truncate (81 * min 1 (max 0 (3 / 4)))))" by blast
  have t: "truncate (81 * min 1 (max 0 (3 / 4))) = 60" by (simp add: truncate_def)
  have "CountEmptyCells (fst (removeCells g1 c 60)) = 60"
    using removeCells_count[OF f, of g1 60] by simp
  with r t have "map_option (\<lambda>r. CountEmptyCells (fst r))
     (GeneratePuzzleWithEmptyRatio (*) \<lparr>rand = (\<lambda>k. 0)\<rparr> (3 / 4)) = Some 60"
    by simp
  moreover have "round (81 * (3 / 4 :: real)) = 61" by (simp add: round_def)
  ultimately show ?thesis by simp
qed

text \<open>
  Claim C5, amended. \<open>GeneratePuzzleWithEmptyRatio\<close> clamps the ratio to [0,1] and
  removes, from a new complete board, as many cells as the product of 81 and the
  clamped ratio with its fraction dropped (with an exact product: the floor of
  81 times the clamped ratio). Cells are only cleared. With ratio 0 the board returned
  is complete and equal to the solution; with ratio 1 every cell of it is empty.
\<close>

theorem GeneratePuzzleWithEmptyRatio_truncates:
  "\<exists>completed g1 puzzle g2.
     GenerateComplete g = Some (completed, g1) \<and>
     GeneratePuzzleWithEmptyRatio fmul g ratio = Some (puzzle, g2) \<and>
     (puzzle, g2) = removeCells g1 completed (truncate (fmul 81 (min 1 (max 0 ratio)))) \<and>
     CountEmptyCells puzzle = min 81 (max 0 (truncate (fmul 81 (min 1 (max 0 ratio))))) \<and>
     (fmul = (*) \<longrightarrow> CountEmptyCells puzzle = \<lfloor>81 * min 1 (max 0 ratio)\<rfloor>) \<and>
     (\<forall>i j. 0 \<le> i \<and> i \<le> 8 \<and> 0 \<le> j \<and> j \<le> 8 \<and> Board puzzle i j \<noteq> 0 \<longrightarrow>
            Board puzzle i j = Board completed i j) \<and>
     (fmul 81 0 = 0 \<and> ratio = 0 \<longrightarrow>
        IsComplete puzzle \<and>
        (\<forall>i j. 0 \<le> i \<and> i \<le> 8 \<and> 0 \<le> j \<and> j \<le> 8 \<longrightarrow> Board puzzle i j = Board completed i j)) \<and>
     (fmul 81 1 = 81 \<and> ratio = 1 \<longrightarrow>
        (\<forall>i j. 0 \<le> i \<and> i \<le> 8 \<and> 0 \<le> j \<and> j \<le> 8 \<longrightarrow> Board puzzle i j = 0))"
proof -
  let ?n = "truncate (fmul 81 (min 1 (max 0 ratio)))"
  from GeneratePuzzleWithEmptyRatio_result[of g fmul ratio]
  obtain c g1 where gc: "GenerateComplete g = Some (c, g1)"
    and v: "IsValid c" and f: "isFilled c"
    and r: "GeneratePuzzleWithEmptyRatio fmul g ratio = Some (removeCells g1 c ?n)" by blast
  let ?p = "fst (removeCells g1 c ?n)"
  have cnt: "CountEmptyCells ?p = min 81 (max 0 ?n)" by (rule removeCells_count[OF f])
  have ex: "fmul = (*) \<longrightarrow> CountEmptyCells ?p = \<lfloor>81 * min 1 (max 0 ratio)\<rfloor>"
  proof
    assume m: "fmul = (*)"
    have b: "0 \<le> 81 * min 1 (max 0 ratio)" "81 * min 1 (max 0 ratio) \<le> 81" by auto
    then have "0 \<le> \<lfloor>81 * min 1 (max 0 ratio)\<rfloor>" "\<lfloor>81 * min 1 (max 0 ratio)\<rfloor> \<le> 81"
      by (simp_all add: floor_le_iff)
    with b(1) cnt show "CountEmptyCells ?p = \<lfloor>81 * min 1 (max 0 ratio)\<rfloor>"
      by (simp add: m truncate_def)
  qed
  have keep: "\<forall>i j. 0 \<le> i \<and> i \<le> 8 \<and> 0 \<le> j \<and> j \<le> 8 \<and> Board ?p i j \<noteq> 0 \<longrightarrow>
            Board ?p i j = Board c i j"
    using removeCells_only_clears[of _ _ g1 c ?n] by (simp add: isValidPosition_def)
  have zero: "fmul 81 0 = 0 \<and> ratio = 0 \<longrightarrow>
        IsComplete ?p \<and>
        (\<forall>i j. 0 \<le> i \<and> i \<le> 8 \<and> 0 \<le> j \<and> j \<le> 8 \<longrightarrow> Board ?p i j = Board c i j)"
  proof
    assume a: "fmul 81 0 = 0 \<and> ratio = 0"
    then have n: "?n = 0" by (simp add: truncate_def)
    have e: "\<And>i j. isValidPosition i j \<Longrightarrow> Board c i j = Board ?p i j"
      unfolding n using removeCells_none[OF f] by simp
    have "IsComplete ?p" by (rule IsComplete_cong[OF e v f])
    with e show "IsComplete ?p \<and>
        (\<forall>i j. 0 \<le> i \<and> i \<le> 8 \<and> 0 \<le> j \<and> j \<le> 8 \<longrightarrow> Board ?p i j = Board c i j)"
      by (simp add: isValidPosition_def)
  qed
  have one: "fmul 81 1 = 81 \<and> ratio = 1 \<longrightarrow>
        (\<forall>i j. 0 \<le> i \<and> i \<le> 8 \<and> 0 \<le> j \<and> j \<le> 8 \<longrightarrow> Board ?p i j = 0)"
  proof
    assume a: "fmul 81 1 = 81 \<and> ratio = 1"
    then have n: "?n = 81" by (simp add: truncate_def)
    show "\<forall>i j. 0 \<le> i \<and> i \<le> 8 \<and> 0 \<le> j \<and> j \<le> 8 \<longrightarrow> Board ?p i j = 0"
      unfolding n using removeCells_all[OF f, of _ _ g1] by (simp add: isValidPosition_def)
  qed
  have "GeneratePuzzleWithEmptyRatio fmul g ratio = Some (?p, snd (removeCells g1 c ?n))"
    using r by simp
  moreover have "(?p, snd (removeCells g1 c ?n)) = removeCells g1 c ?n" by simp
  ultimately show ?thesis using gc cnt ex keep zero one by blast
qed

theorem GeneratePuzzleWithEmptyRatio_truncates_witness:
  "(\<exists>puzzle g2. GeneratePuzzleWithEmptyRatio (*) \<lparr>rand = (\<lambda>k. 0)\<rparr> (3 / 4) = Some (puzzle, g2) \<and>
      CountEmptyCells puzzle = 60) \<and>
   (\<exists>puzzle g2. GeneratePuzzleWithEmptyRatio (*) \<lparr>rand = (\<lambda>k. 0)\<rparr> 0 = Some (puzzle, g2) \<and>
      IsComplete puzzle) \<and>
   (\<exists>puzzle g2. GeneratePuzzleWithEmptyRatio (*) \<lparr>rand = (\<lambda>k. 0)\<rparr> 1 = Some (puzzle, g2) \<and>
      Board puzzle 4 4 = 0)"
proof (intro conjI)
  have "\<lfloor>81 * min 1 (max 0 (3 / 4 :: real))\<rfloor> = 60" by simp
  with GeneratePuzzleWithEmptyRatio_truncates [of "\<lparr>rand = (\<lambda>k. 0)\<rparr>" "(*)" "3 / 4"]
  show "\<exists>puzzle g2. GeneratePuzzleWithEmptyRatio (*) \<lparr>rand = (\<lambda>k. 0)\<rparr> (3 / 4) = Some (puzzle, g2) \<and>
      CountEmptyCells puzzle = 60" by (elim exE conjE) (intro exI conjI, assumption, simp)
next
  have "(81::real) * 0 = 0 \<and> (0::real) = 0" by simp
  with GeneratePuzzleWithEmptyRatio_truncates [of "\<lparr>rand = (\<lambda>k. 0)\<rparr>" "(*)" 0]
  show "\<exists>puzzle g2. GeneratePuzzleWithEmptyRatio (*) \<lparr>rand = (\<lambda>k. 0)\<rparr> 0 = Some (puzzle, g2) \<and>
      IsComplete puzzle" by blast
next
  have "(81::real) * 1 = 81 \<and> (1::real) = 1" "(0::int) \<le> 4 \<and> (4::int) \<le> 8 \<and> (0::int) \<le> 4 \<and> (4::int) \<le> 8"
    by simp_all
  with GeneratePuzzleWithEmptyRatio_truncates [of "\<lparr>rand = (\<lambda>k. 0)\<rparr>" "(*)" 1]
  show "\<exists>puzzle g2. GeneratePuzzleWithEmptyRatio (*) \<lparr>rand = (\<lambda>k. 0)\<rparr> 1 = Some (puzzle, g2) \<and>
      Board puzzle 4 4 = 0" by blast
qed

end
